theory Spec2Isabelle
  imports Main "HOL-Library.Word" "HOL-Library.Multiset" "HOL-Library.Signed_Division"
begin

section \<open>Common result types\<close>

text \<open>
  Go's \<^verbatim>\<open>error\<close> results are built with \<^verbatim>\<open>fmt.Errorf\<close> from a constant message; an
  error value is modelled by its message, and \<^verbatim>\<open>nil\<close> by \<open>None\<close>. A Go result
  \<^verbatim>\<open>(T, error)\<close> is the pair of the value and the optional error, as the code returns it.

  A run-time panic (index out of range, nil pointer dereference) is the left summand of
  the result of every operation that can reach one.
\<close>

type_synonym error = string

datatype panic = IndexOutOfRange | NilDereference

section \<open>Stack (src/stack/stack.go)\<close>

text \<open>
  A stack node is never written after its creation, so the pointer \<^verbatim>\<open>Next *Node[T]\<close> is
  modelled by the node it points to (\<open>None\<close> for \<^verbatim>\<open>nil\<close>). The \<^verbatim>\<open>size\<close> counter is a Go
  \<^verbatim>\<open>int\<close>; it counts allocated nodes and cannot reach the 64-bit limit, so it is an \<open>int\<close>.
\<close>

datatype 'a StackNode = StackNode (nodeValue: 'a) (nodeNext: "'a StackNode option")

record 'a Stack =
  top :: "'a StackNode option"
  ssize :: int

definition NewStack :: "'a Stack" where
  "NewStack = \<lparr>top = None, ssize = 0\<rparr>"

definition stack_IsEmpty :: "'a Stack \<Rightarrow> bool" where
  "stack_IsEmpty s = (top s = None)"

definition stack_Size :: "'a Stack \<Rightarrow> int" where
  "stack_Size s = ssize s"

definition stack_Push :: "'a \<Rightarrow> 'a Stack \<Rightarrow> 'a Stack" where
  "stack_Push v s = (let newNode = StackNode v (top s)
                     in s\<lparr>top := Some newNode, ssize := ssize s + 1\<rparr>)"

text \<open>
  \<open>zero\<close> is the zero value of the element type (\<^verbatim>\<open>var zero T\<close>). The test
  \<^verbatim>\<open>s.IsEmpty()\<close> is \<^verbatim>\<open>s.top == nil\<close>, so the \<open>None\<close> branch below is the early return
  and the \<open>Some\<close> branch is the rest of the function.
\<close>

definition stack_Pop :: "'a \<Rightarrow> 'a Stack \<Rightarrow> ('a \<times> error option) \<times> 'a Stack" where
  "stack_Pop zero s =
     (case top s of
        None \<Rightarrow> ((zero, Some ''stack is empty''), s)
      | Some n \<Rightarrow> ((nodeValue n, None), s\<lparr>top := nodeNext n, ssize := ssize s - 1\<rparr>))"

definition stack_Peek :: "'a \<Rightarrow> 'a Stack \<Rightarrow> ('a \<times> error option) \<times> 'a Stack" where
  "stack_Peek zero s =
     (case top s of
        None \<Rightarrow> ((zero, Some ''stack is empty''), s)
      | Some n \<Rightarrow> ((nodeValue n, None), s))"

definition stack_Clear :: "'a Stack \<Rightarrow> 'a Stack" where
  "stack_Clear s = s\<lparr>top := None, ssize := 0\<rparr>"

text \<open>Drivers: a run of pushes, and a run of \<open>n\<close> pops collecting every result.\<close>

fun stack_push_all :: "'a list \<Rightarrow> 'a Stack \<Rightarrow> 'a Stack" where
  "stack_push_all [] s = s"
| "stack_push_all (v # vs) s = stack_push_all vs (stack_Push v s)"

fun stack_pop_n :: "nat \<Rightarrow> 'a \<Rightarrow> 'a Stack \<Rightarrow> ('a \<times> error option) list \<times> 'a Stack" where
  "stack_pop_n 0 zero s = ([], s)"
| "stack_pop_n (Suc n) zero s =
     (let (r, s1) = stack_Pop zero s; (rs, s2) = stack_pop_n n zero s1 in (r # rs, s2))"

text \<open>The states a client can reach through the exported operations.\<close>

inductive stack_reach :: "'a Stack \<Rightarrow> bool" where
  sr_new: "stack_reach NewStack"
| sr_push: "stack_reach s \<Longrightarrow> stack_reach (stack_Push v s)"
| sr_pop: "stack_reach s \<Longrightarrow> stack_reach (snd (stack_Pop zero s))"
| sr_clear: "stack_reach s \<Longrightarrow> stack_reach (stack_Clear s)"

fun chain_len :: "'a StackNode option \<Rightarrow> nat" where
  "chain_len None = 0"
| "chain_len (Some (StackNode v nx)) = Suc (chain_len nx)"

section \<open>Queue (package queue)\<close>

text \<open>
  \<^verbatim>\<open>Push\<close> writes the \<^verbatim>\<open>Next\<close> field of the node \<^verbatim>\<open>rear\<close> points to, a node that \<^verbatim>\<open>front\<close>
  may reach too, so the nodes live in an explicit store: \<open>qmem\<close> is the list of the
  nodes allocated so far, a pointer is a position in it (\<open>None\<close> for \<^verbatim>\<open>nil\<close>), and
  \<^verbatim>\<open>&Node[T]{...}\<close> appends a node. Reading through \<^verbatim>\<open>nil\<close> panics; an address that was
  never allocated does not exist in Go and is treated the same way.
\<close>

record 'a QNode =
  qValue :: 'a
  qNext :: "nat option"

record 'a Queue =
  front :: "nat option"
  rear :: "nat option"
  qsize :: int
  qmem :: "'a QNode list"

definition qderef :: "'a QNode list \<Rightarrow> nat option \<Rightarrow> panic + 'a QNode" where
  "qderef m p = (case p of None \<Rightarrow> Inl NilDereference
                 | Some a \<Rightarrow> if a < length m then Inr (m ! a) else Inl NilDereference)"

definition NewQueue :: "'a Queue" where
  "NewQueue = \<lparr>front = None, rear = None, qsize = 0, qmem = []\<rparr>"

definition queue_IsEmpty :: "'a Queue \<Rightarrow> bool" where
  "queue_IsEmpty q = (front q = None)"

definition queue_Size :: "'a Queue \<Rightarrow> int" where
  "queue_Size q = qsize q"

definition queue_Push :: "'a \<Rightarrow> 'a Queue \<Rightarrow> panic + 'a Queue" where
  "queue_Push v q =
     (let newNode = length (qmem q);
          q1 = q\<lparr>qmem := qmem q @ [\<lparr>qValue = v, qNext = None\<rparr>]\<rparr>
      in if queue_IsEmpty q1
         then Inr (q1\<lparr>front := Some newNode, rear := Some newNode, qsize := qsize q1 + 1\<rparr>)
         else (case rear q1 of
                 None \<Rightarrow> Inl NilDereference
               | Some r \<Rightarrow>
                   if r < length (qmem q1)
                   then Inr (q1\<lparr>qmem := (qmem q1)[r := (qmem q1 ! r)\<lparr>qNext := Some newNode\<rparr>],
                                rear := Some newNode, qsize := qsize q1 + 1\<rparr>)
                   else Inl NilDereference))"

definition queue_Pop :: "'a \<Rightarrow> 'a Queue \<Rightarrow> panic + (('a \<times> error option) \<times> 'a Queue)" where
  "queue_Pop zero q =
     (if queue_IsEmpty q then Inr ((zero, Some ''queue is empty''), q)
      else (case qderef (qmem q) (front q) of
              Inl e \<Rightarrow> Inl e
            | Inr f \<Rightarrow>
                (let q1 = q\<lparr>front := qNext f\<rparr>;
                     q2 = (if front q1 = None then q1\<lparr>rear := None\<rparr> else q1)
                 in Inr ((qValue f, None), q2\<lparr>qsize := qsize q2 - 1\<rparr>))))"

definition queue_Front :: "'a \<Rightarrow> 'a Queue \<Rightarrow> panic + (('a \<times> error option) \<times> 'a Queue)" where
  "queue_Front zero q =
     (if queue_IsEmpty q then Inr ((zero, Some ''queue is empty''), q)
      else (case qderef (qmem q) (front q) of
              Inl e \<Rightarrow> Inl e
            | Inr f \<Rightarrow> Inr ((qValue f, None), q)))"

definition queue_Rear :: "'a \<Rightarrow> 'a Queue \<Rightarrow> panic + (('a \<times> error option) \<times> 'a Queue)" where
  "queue_Rear zero q =
     (if queue_IsEmpty q then Inr ((zero, Some ''queue is empty''), q)
      else (case qderef (qmem q) (rear q) of
              Inl e \<Rightarrow> Inl e
            | Inr r \<Rightarrow> Inr ((qValue r, None), q)))"

definition queue_Clear :: "'a Queue \<Rightarrow> 'a Queue" where
  "queue_Clear q = q\<lparr>front := None, rear := None, qsize := 0\<rparr>"

text \<open>Drivers: a run of pushes, and a run of \<open>n\<close> pops collecting every result.\<close>

fun queue_push_all :: "'a list \<Rightarrow> 'a Queue \<Rightarrow> panic + 'a Queue" where
  "queue_push_all [] q = Inr q"
| "queue_push_all (v # vs) q =
     (case queue_Push v q of Inl e \<Rightarrow> Inl e | Inr q1 \<Rightarrow> queue_push_all vs q1)"

fun queue_pop_n :: "nat \<Rightarrow> 'a \<Rightarrow> 'a Queue \<Rightarrow> panic + (('a \<times> error option) list \<times> 'a Queue)" where
  "queue_pop_n 0 zero q = Inr ([], q)"
| "queue_pop_n (Suc n) zero q =
     (case queue_Pop zero q of
        Inl e \<Rightarrow> Inl e
      | Inr (r, q1) \<Rightarrow>
          (case queue_pop_n n zero q1 of
             Inl e \<Rightarrow> Inl e
           | Inr (rs, q2) \<Rightarrow> Inr (r # rs, q2)))"

text \<open>The states a client can reach through the exported operations.\<close>

inductive queue_reach :: "'a Queue \<Rightarrow> bool" where
  qr_new: "queue_reach NewQueue"
| qr_push: "queue_reach q \<Longrightarrow> queue_Push v q = Inr q' \<Longrightarrow> queue_reach q'"
| qr_pop: "queue_reach q \<Longrightarrow> queue_Pop zero q = Inr (r, q') \<Longrightarrow> queue_reach q'"
| qr_clear: "queue_reach q \<Longrightarrow> queue_reach (queue_Clear q)"

text \<open>
  The representation invariant: the nodes from \<open>front\<close> on, following \<open>qNext\<close>, are the
  addresses \<open>as\<close>, in this order.
\<close>

fun qchain :: "'a QNode list \<Rightarrow> nat option \<Rightarrow> nat list \<Rightarrow> bool" where
  "qchain m p [] = (p = None)"
| "qchain m p (a # as) = (p = Some a \<and> a < length m \<and> qchain m (qNext (m ! a)) as)"

definition queue_repr :: "'a Queue \<Rightarrow> nat list \<Rightarrow> bool" where
  "queue_repr q as =
     (qchain (qmem q) (front q) as \<and> distinct as \<and> qsize q = int (length as) \<and>
      rear q = (if as = [] then None else Some (last as)))"

definition queue_contents :: "'a Queue \<Rightarrow> nat list \<Rightarrow> 'a list" where
  "queue_contents q as = map (\<lambda>a. qValue (qmem q ! a)) as"

section \<open>Priority queue (src/priorityqueue/priorityqueue.go)\<close>

text \<open>
  The queue keeps pointers to \<^verbatim>\<open>Item\<close> objects that clients also hold (through
  \<^verbatim>\<open>ToSlice\<close>) and write to, so the items live in an explicit store: \<open>mem\<close> is the list
  of the items allocated so far and a \<^verbatim>\<open>*Item[T]\<close> is a position in it;
  \<^verbatim>\<open>&Item[T]{Value: value}\<close> appends an item with \<^verbatim>\<open>Index\<close> zero. The record below is the
  struct \<^verbatim>\<open>priorityHeap\<close> (fields \<open>items\<close>, \<open>compare\<close>, \<open>isMaxHeap\<close>) together with that
  store; \<^verbatim>\<open>PriorityQueue\<close> itself is only a pointer to its heap.

  Positions are Go \<^verbatim>\<open>int\<close>s and are modelled as unbounded \<open>int\<close>: every position the
  code computes is at most twice the length of a slice plus two. A comparator's result
  is a Go \<^verbatim>\<open>int\<close> that the code negates and compares with zero, so it is a 64-bit word
  read as signed.
\<close>

record 'a Item =
  Value :: 'a
  Index :: int

type_synonym 'a CompareFunc = "'a \<Rightarrow> 'a \<Rightarrow> 64 word"

record 'a PriorityQueue =
  items :: "nat list"
  compare :: "'a CompareFunc"
  isMaxHeap :: bool
  mem :: "'a Item list"

definition deref :: "'a Item list \<Rightarrow> nat \<Rightarrow> panic + 'a Item" where
  "deref m a = (if a < length m then Inr (m ! a) else Inl NilDereference)"

definition set_Index :: "'a Item list \<Rightarrow> nat \<Rightarrow> int \<Rightarrow> panic + 'a Item list" where
  "set_Index m a i =
     (if a < length m then Inr (m[a := (m ! a)\<lparr>Index := i\<rparr>]) else Inl NilDereference)"

definition Len :: "'a PriorityQueue \<Rightarrow> int" where
  "Len h = int (length (items h))"

text \<open>\<^verbatim>\<open>h.items[i]\<close>, with Go's bounds check.\<close>

definition item_at :: "'a PriorityQueue \<Rightarrow> int \<Rightarrow> panic + nat" where
  "item_at h i = (if 0 \<le> i \<and> i < Len h then Inr (items h ! nat i) else Inl IndexOutOfRange)"

definition Less :: "'a PriorityQueue \<Rightarrow> int \<Rightarrow> int \<Rightarrow> panic + bool" where
  "Less h i j =
     (case item_at h i of Inl e \<Rightarrow> Inl e | Inr a \<Rightarrow>
     (case deref (mem h) a of Inl e \<Rightarrow> Inl e | Inr x \<Rightarrow>
     (case item_at h j of Inl e \<Rightarrow> Inl e | Inr b \<Rightarrow>
     (case deref (mem h) b of Inl e \<Rightarrow> Inl e | Inr y \<Rightarrow>
        (let cmp = compare h (Value x) (Value y)
         in if isMaxHeap h then Inr (0 <s cmp) else Inr (cmp <s 0))))))"

text \<open>
  The tuple assignment reads both slots (with their bounds checks), then writes slot
  \<open>i\<close> and slot \<open>j\<close> in this order; the two \<^verbatim>\<open>Index\<close> writes follow.
\<close>

definition Swap :: "'a PriorityQueue \<Rightarrow> int \<Rightarrow> int \<Rightarrow> panic + 'a PriorityQueue" where
  "Swap h i j =
     (case item_at h i of Inl e \<Rightarrow> Inl e | Inr a \<Rightarrow>
     (case item_at h j of Inl e \<Rightarrow> Inl e | Inr b \<Rightarrow>
        (let h1 = h\<lparr>items := (items h)[nat i := b, nat j := a]\<rparr>
         in (case item_at h1 i of Inl e \<Rightarrow> Inl e | Inr p \<Rightarrow>
            (case set_Index (mem h1) p i of Inl e \<Rightarrow> Inl e | Inr m1 \<Rightarrow>
            (case item_at h1 j of Inl e \<Rightarrow> Inl e | Inr q \<Rightarrow>
            (case set_Index m1 q j of Inl e \<Rightarrow> Inl e | Inr m2 \<Rightarrow>
               Inr (h1\<lparr>mem := m2\<rparr>))))))))"

definition heap_Push :: "'a PriorityQueue \<Rightarrow> nat \<Rightarrow> panic + 'a PriorityQueue" where
  "heap_Push h item =
     (case set_Index (mem h) item (int (length (items h))) of
        Inl e \<Rightarrow> Inl e
      | Inr m1 \<Rightarrow> Inr (h\<lparr>items := items h @ [item], mem := m1\<rparr>))"

text \<open>
  \<^verbatim>\<open>old[n-1] = nil\<close> writes a slot of the backing array that the new slice
  \<^verbatim>\<open>old[0 : n-1]\<close> no longer covers, so the list simply loses its last element.
\<close>

definition heap_Pop :: "'a PriorityQueue \<Rightarrow> panic + (nat \<times> 'a PriorityQueue)" where
  "heap_Pop h =
     (let n = Len h
      in (case item_at h (n - 1) of Inl e \<Rightarrow> Inl e | Inr item \<Rightarrow>
         (case set_Index (mem h) item (- 1) of Inl e \<Rightarrow> Inl e | Inr m1 \<Rightarrow>
            Inr (item, h\<lparr>items := take (nat (n - 1)) (items h), mem := m1\<rparr>))))"

subsection \<open>The library package container/heap\<close>

text \<open>
  The queue delegates to Go's standard package \<^verbatim>\<open>container/heap\<close>, whose functions call
  back the methods above. They are transcribed here:
  \<^verbatim>\<open>
  func up(h Interface, j int) {
      for {
          i := (j - 1) / 2 // parent
          if i == j || !h.Less(j, i) { break }
          h.Swap(i, j)
          j = i
      }
  }
  func down(h Interface, i0, n int) bool {
      i := i0
      for {
          j1 := 2*i + 1
          if j1 >= n || j1 < 0 { break } // j1 < 0 after int overflow
          j := j1 // left child
          if j2 := j1 + 1; j2 < n && h.Less(j2, j1) { j = j2 }
          if !h.Less(j, i) { break }
          h.Swap(i, j)
          i = j
      }
      return i > i0
  }
  func Init(h Interface) {
      n := h.Len()
      for i := n/2 - 1; i >= 0; i-- { down(h, i, n) }
  }
  func Push(h Interface, x any) { h.Push(x); up(h, h.Len()-1) }
  func Pop(h Interface) any {
      n := h.Len() - 1
      h.Swap(0, n)
      down(h, 0, n)
      return h.Pop()
  }
  func Remove(h Interface, i int) any {
      n := h.Len() - 1
      if n != i {
          h.Swap(i, n)
          if !down(h, i, n) { up(h, i) }
      }
      return h.Pop()
  }
  func Fix(h Interface, i int) {
      if !down(h, i, h.Len()) { up(h, i) }
  }
  \<close>
  Go's integer division truncates toward zero; \<open>sdiv\<close> is that division.
\<close>

function up :: "'a PriorityQueue \<Rightarrow> int \<Rightarrow> panic + 'a PriorityQueue" where
  "up h j =
     (let i = (j - 1) sdiv 2
      in if i = j then Inr h
         else (case Less h j i of Inl e \<Rightarrow> Inl e | Inr b \<Rightarrow>
                 if \<not> b then Inr h
                 else (case Swap h i j of Inl e \<Rightarrow> Inl e | Inr h' \<Rightarrow> up h' i)))"
  by pat_completeness auto
termination
proof (relation "measure (\<lambda>(h, j). nat \<bar>j\<bar>)")
  show "wf (measure (\<lambda>(h :: 'a PriorityQueue, j :: int). nat \<bar>j\<bar>))"
    by simp
next
  fix h :: "'a PriorityQueue" and j i :: int and b :: bool and h' :: "'a PriorityQueue"
  assume "i = (j - 1) sdiv 2" and "i \<noteq> j"
  then show "((h', i), (h, j)) \<in> measure (\<lambda>(h, j). nat \<bar>j\<bar>)"
    by (auto simp: signed_divide_int_def sgn_if split: if_splits)
qed

text \<open>The loop of \<^verbatim>\<open>down\<close>; it returns the final state and the final position \<open>i\<close>.\<close>

function down_loop :: "'a PriorityQueue \<Rightarrow> int \<Rightarrow> int \<Rightarrow> panic + ('a PriorityQueue \<times> int)" where
  "down_loop h i n =
     (let j1 = 2 * i + 1
      in if j1 \<ge> n \<or> j1 < 0 then Inr (h, i)
         else (case (if j1 + 1 < n then Less h (j1 + 1) j1 else Inr False) of
                 Inl e \<Rightarrow> Inl e
               | Inr b \<Rightarrow>
                   (let j = (if b then j1 + 1 else j1)
                    in (case Less h j i of Inl e \<Rightarrow> Inl e | Inr c \<Rightarrow>
                          if \<not> c then Inr (h, i)
                          else (case Swap h i j of Inl e \<Rightarrow> Inl e
                                | Inr h' \<Rightarrow> down_loop h' j n)))))"
  by pat_completeness auto
termination
  by (relation "measure (\<lambda>(h, i, n). nat (n - i))") auto

definition down :: "'a PriorityQueue \<Rightarrow> int \<Rightarrow> int \<Rightarrow> panic + ('a PriorityQueue \<times> bool)" where
  "down h i0 n =
     (case down_loop h i0 n of Inl e \<Rightarrow> Inl e | Inr (h', i) \<Rightarrow> Inr (h', i > i0))"

function Init_loop :: "'a PriorityQueue \<Rightarrow> int \<Rightarrow> int \<Rightarrow> panic + 'a PriorityQueue" where
  "Init_loop h i n =
     (if i \<ge> 0
      then (case down h i n of Inl e \<Rightarrow> Inl e | Inr (h', moved) \<Rightarrow> Init_loop h' (i - 1) n)
      else Inr h)"
  by pat_completeness auto
termination
  by (relation "measure (\<lambda>(h, i, n). nat (i + 1))") auto

definition Init :: "'a PriorityQueue \<Rightarrow> panic + 'a PriorityQueue" where
  "Init h = (let n = Len h in Init_loop h (n sdiv 2 - 1) n)"

definition Push_h :: "'a PriorityQueue \<Rightarrow> nat \<Rightarrow> panic + 'a PriorityQueue" where
  "Push_h h x =
     (case heap_Push h x of Inl e \<Rightarrow> Inl e | Inr h1 \<Rightarrow> up h1 (Len h1 - 1))"

definition Pop_h :: "'a PriorityQueue \<Rightarrow> panic + (nat \<times> 'a PriorityQueue)" where
  "Pop_h h =
     (let n = Len h - 1
      in (case Swap h 0 n of Inl e \<Rightarrow> Inl e | Inr h1 \<Rightarrow>
         (case down h1 0 n of Inl e \<Rightarrow> Inl e | Inr (h2, moved) \<Rightarrow> heap_Pop h2)))"

definition Fix :: "'a PriorityQueue \<Rightarrow> int \<Rightarrow> panic + 'a PriorityQueue" where
  "Fix h i =
     (case down h i (Len h) of Inl e \<Rightarrow> Inl e | Inr (h1, moved) \<Rightarrow>
        if \<not> moved then up h1 i else Inr h1)"

definition Remove_h :: "'a PriorityQueue \<Rightarrow> int \<Rightarrow> panic + (nat \<times> 'a PriorityQueue)" where
  "Remove_h h i =
     (let n = Len h - 1
      in if n \<noteq> i
         then (case Swap h i n of Inl e \<Rightarrow> Inl e | Inr h1 \<Rightarrow>
              (case down h1 i n of Inl e \<Rightarrow> Inl e | Inr (h2, moved) \<Rightarrow>
              (case (if \<not> moved then up h2 i else Inr h2) of Inl e \<Rightarrow> Inl e | Inr h3 \<Rightarrow>
                 heap_Pop h3)))
         else heap_Pop h)"

subsection \<open>The exported operations\<close>

definition NewMinQueue :: "'a CompareFunc \<Rightarrow> panic + 'a PriorityQueue" where
  "NewMinQueue cmp = Init \<lparr>items = [], compare = cmp, isMaxHeap = False, mem = []\<rparr>"

definition NewMaxQueue :: "'a CompareFunc \<Rightarrow> panic + 'a PriorityQueue" where
  "NewMaxQueue cmp = Init \<lparr>items = [], compare = cmp, isMaxHeap = True, mem = []\<rparr>"

definition NewItem :: "'a \<Rightarrow> 'a PriorityQueue \<Rightarrow> nat \<times> 'a PriorityQueue" where
  "NewItem v pq = (length (mem pq), pq\<lparr>mem := mem pq @ [\<lparr>Value = v, Index = 0\<rparr>]\<rparr>)"

definition Push :: "'a \<Rightarrow> 'a PriorityQueue \<Rightarrow> panic + 'a PriorityQueue" where
  "Push v pq = (let (item, pq1) = NewItem v pq in Push_h pq1 item)"

definition IsEmpty :: "'a PriorityQueue \<Rightarrow> bool" where
  "IsEmpty pq = (Len pq = 0)"

definition Size :: "'a PriorityQueue \<Rightarrow> int" where
  "Size pq = Len pq"

definition Pop :: "'a \<Rightarrow> 'a PriorityQueue \<Rightarrow> panic + (('a \<times> error option) \<times> 'a PriorityQueue)" where
  "Pop zero pq =
     (if IsEmpty pq then Inr ((zero, Some ''priority queue is empty''), pq)
      else (case Pop_h pq of Inl e \<Rightarrow> Inl e | Inr (item, pq1) \<Rightarrow>
           (case deref (mem pq1) item of Inl e \<Rightarrow> Inl e | Inr it \<Rightarrow>
              Inr ((Value it, None), pq1))))"

definition Peek :: "'a \<Rightarrow> 'a PriorityQueue \<Rightarrow> panic + (('a \<times> error option) \<times> 'a PriorityQueue)" where
  "Peek zero pq =
     (if IsEmpty pq then Inr ((zero, Some ''priority queue is empty''), pq)
      else (case item_at pq 0 of Inl e \<Rightarrow> Inl e | Inr a \<Rightarrow>
           (case deref (mem pq) a of Inl e \<Rightarrow> Inl e | Inr it \<Rightarrow>
              Inr ((Value it, None), pq))))"

definition UpdateItem :: "nat \<Rightarrow> 'a PriorityQueue \<Rightarrow> panic + 'a PriorityQueue" where
  "UpdateItem item pq =
     (case deref (mem pq) item of Inl e \<Rightarrow> Inl e | Inr it \<Rightarrow> Fix pq (Index it))"

definition Remove :: "nat \<Rightarrow> 'a PriorityQueue \<Rightarrow> panic + 'a PriorityQueue" where
  "Remove item pq =
     (case deref (mem pq) item of Inl e \<Rightarrow> Inl e | Inr it \<Rightarrow>
     (case Remove_h pq (Index it) of Inl e \<Rightarrow> Inl e | Inr (removed, pq1) \<Rightarrow> Inr pq1))"

definition ToSlice :: "'a PriorityQueue \<Rightarrow> nat list" where
  "ToSlice pq = items pq"

definition Clear :: "'a PriorityQueue \<Rightarrow> panic + 'a PriorityQueue" where
  "Clear pq = Init (pq\<lparr>items := take 0 (items pq)\<rparr>)"

definition ReverseCompare :: "'a CompareFunc \<Rightarrow> 'a CompareFunc" where
  "ReverseCompare cmp = (\<lambda>a b. - cmp a b)"

text \<open>\<^verbatim>\<open>IntCompare\<close>; the arguments are only compared, so they are plain integers.\<close>

definition IntCompare :: "int CompareFunc" where
  "IntCompare a b = (if a < b then - 1 else if a > b then 1 else 0)"

text \<open>
  A client's write \<^verbatim>\<open>item.Value = v\<close> through a handle (for a pointer-valued \<open>T\<close>, a
  write through the value, which changes what the comparator sees in the same way).
\<close>

definition set_Value :: "nat \<Rightarrow> 'a \<Rightarrow> 'a PriorityQueue \<Rightarrow> 'a PriorityQueue" where
  "set_Value item v pq = pq\<lparr>mem := (mem pq)[item := (mem pq ! item)\<lparr>Value := v\<rparr>]\<rparr>"

subsection \<open>Drivers and reachable states\<close>

text \<open>A run of pushes, and a run of \<open>n\<close> pops collecting every result.\<close>

fun pq_push_all :: "'a list \<Rightarrow> 'a PriorityQueue \<Rightarrow> panic + 'a PriorityQueue" where
  "pq_push_all [] pq = Inr pq"
| "pq_push_all (v # vs) pq =
     (case Push v pq of Inl e \<Rightarrow> Inl e | Inr pq1 \<Rightarrow> pq_push_all vs pq1)"

fun pq_pop_n :: "nat \<Rightarrow> 'a \<Rightarrow> 'a PriorityQueue \<Rightarrow>
    panic + (('a \<times> error option) list \<times> 'a PriorityQueue)" where
  "pq_pop_n 0 zero pq = Inr ([], pq)"
| "pq_pop_n (Suc n) zero pq =
     (case Pop zero pq of
        Inl e \<Rightarrow> Inl e
      | Inr (r, pq1) \<Rightarrow>
          (case pq_pop_n n zero pq1 of
             Inl e \<Rightarrow> Inl e
           | Inr (rs, pq2) \<Rightarrow> Inr (r # rs, pq2)))"

text \<open>
  The states a client reaches through the exported operations when it keeps the
  contract of the interface: \<^verbatim>\<open>Remove\<close> and \<^verbatim>\<open>UpdateItem\<close> get a handle of an item that
  is in the queue (one of \<^verbatim>\<open>ToSlice()\<close>), and every write to an item's value is followed
  by \<^verbatim>\<open>UpdateItem\<close> on that item. The parameters are the comparator and the orientation
  the queue was constructed with.
\<close>

inductive pq_reach :: "'a CompareFunc \<Rightarrow> bool \<Rightarrow> 'a PriorityQueue \<Rightarrow> bool" for cmp where
  pr_min: "NewMinQueue cmp = Inr pq \<Longrightarrow> pq_reach cmp False pq"
| pr_max: "NewMaxQueue cmp = Inr pq \<Longrightarrow> pq_reach cmp True pq"
| pr_push: "pq_reach cmp mx pq \<Longrightarrow> Push v pq = Inr pq' \<Longrightarrow> pq_reach cmp mx pq'"
| pr_pop: "pq_reach cmp mx pq \<Longrightarrow> Pop zero pq = Inr (r, pq') \<Longrightarrow> pq_reach cmp mx pq'"
| pr_peek: "pq_reach cmp mx pq \<Longrightarrow> Peek zero pq = Inr (r, pq') \<Longrightarrow> pq_reach cmp mx pq'"
| pr_clear: "pq_reach cmp mx pq \<Longrightarrow> Clear pq = Inr pq' \<Longrightarrow> pq_reach cmp mx pq'"
| pr_remove: "pq_reach cmp mx pq \<Longrightarrow> item \<in> set (ToSlice pq) \<Longrightarrow>
              Remove item pq = Inr pq' \<Longrightarrow> pq_reach cmp mx pq'"
| pr_update: "pq_reach cmp mx pq \<Longrightarrow> item \<in> set (ToSlice pq) \<Longrightarrow>
              UpdateItem item (set_Value item v pq) = Inr pq' \<Longrightarrow> pq_reach cmp mx pq'"

subsection \<open>The reference fix-up of the specification\<close>

text \<open>
  The specification describes \<^verbatim>\<open>UpdateItem\<close> as "attempt a sift-up and, if no swap
  occurred, a sift-down". \<open>Fix_spec\<close> follows these words: \<open>up_swaps\<close> is the first test
  of \<^verbatim>\<open>up\<close>, which decides whether \<^verbatim>\<open>up\<close> swaps at all.
\<close>

definition up_swaps :: "'a PriorityQueue \<Rightarrow> int \<Rightarrow> panic + bool" where
  "up_swaps h j = (let i = (j - 1) sdiv 2 in if i = j then Inr False else Less h j i)"

definition Fix_spec :: "'a PriorityQueue \<Rightarrow> int \<Rightarrow> panic + 'a PriorityQueue" where
  "Fix_spec h i =
     (case up_swaps h i of Inl e \<Rightarrow> Inl e | Inr swapped \<Rightarrow>
     (case up h i of Inl e \<Rightarrow> Inl e | Inr h1 \<Rightarrow>
        if \<not> swapped
        then (case down h1 i (Len h1) of Inl e \<Rightarrow> Inl e | Inr (h2, moved) \<Rightarrow> Inr h2)
        else Inr h1))"

definition UpdateItem_spec :: "nat \<Rightarrow> 'a PriorityQueue \<Rightarrow> panic + 'a PriorityQueue" where
  "UpdateItem_spec item pq =
     (case deref (mem pq) item of Inl e \<Rightarrow> Inl e | Inr it \<Rightarrow> Fix_spec pq (Index it))"

subsection \<open>Outcomes of a call, a complete run, and example states\<close>

text \<open>
  \<open>fails r\<close>: the call returned an error value; \<open>succeeds r\<close>: it returned with a
  \<^verbatim>\<open>nil\<close> error. A panic is neither.
\<close>

definition fails :: "panic + (('a \<times> error option) \<times> 's) \<Rightarrow> bool" where
  "fails r = (case r of Inl e \<Rightarrow> False | Inr ((v, err), s) \<Rightarrow> err \<noteq> None)"

definition succeeds :: "panic + (('a \<times> error option) \<times> 's) \<Rightarrow> bool" where
  "succeeds r = (case r of Inl e \<Rightarrow> False | Inr ((v, err), s) \<Rightarrow> err = None)"

text \<open>
  The results of \<open>n\<close> pops after the pushes \<open>vs\<close> on a queue a constructor returned.
\<close>

definition pq_run :: "panic + 'a PriorityQueue \<Rightarrow> 'a list \<Rightarrow> nat \<Rightarrow> 'a \<Rightarrow>
    panic + ('a \<times> error option) list" where
  "pq_run start vs n zero =
     (case start of Inl e \<Rightarrow> Inl e | Inr pq \<Rightarrow>
     (case pq_push_all vs pq of Inl e \<Rightarrow> Inl e | Inr pq1 \<Rightarrow>
     (case pq_pop_n n zero pq1 of Inl e \<Rightarrow> Inl e | Inr (rs, pq2) \<Rightarrow> Inr rs)))"

text \<open>
  The states of the first example of \<^verbatim>\<open>ExampleUsage\<close>: a min-queue of integers after
  the pushes 30, 10, 20 and after the first and the second pop.
\<close>

definition ex_q0 :: "int PriorityQueue" where
  "ex_q0 = \<lparr>items = [], compare = IntCompare, isMaxHeap = False, mem = []\<rparr>"

definition ex_q1 :: "int PriorityQueue" where
  "ex_q1 = \<lparr>items = [0], compare = IntCompare, isMaxHeap = False,
            mem = [\<lparr>Value = 30, Index = 0\<rparr>]\<rparr>"

definition ex_q2 :: "int PriorityQueue" where
  "ex_q2 = \<lparr>items = [1, 0], compare = IntCompare, isMaxHeap = False,
            mem = [\<lparr>Value = 30, Index = 1\<rparr>, \<lparr>Value = 10, Index = 0\<rparr>]\<rparr>"

definition ex_q3 :: "int PriorityQueue" where
  "ex_q3 = \<lparr>items = [1, 0, 2], compare = IntCompare, isMaxHeap = False,
            mem = [\<lparr>Value = 30, Index = 1\<rparr>, \<lparr>Value = 10, Index = 0\<rparr>,
                   \<lparr>Value = 20, Index = 2\<rparr>]\<rparr>"

definition ex_q4 :: "int PriorityQueue" where
  "ex_q4 = \<lparr>items = [2, 0], compare = IntCompare, isMaxHeap = False,
            mem = [\<lparr>Value = 30, Index = 1\<rparr>, \<lparr>Value = 10, Index = - 1\<rparr>,
                   \<lparr>Value = 20, Index = 0\<rparr>]\<rparr>"


text \<open>A queue and a stack holding one value.\<close>

definition ex_queue1 :: "int Queue" where
  "ex_queue1 = \<lparr>front = Some 0, rear = Some 0, qsize = 1,
                 qmem = [\<lparr>qValue = 7, qNext = None\<rparr>]\<rparr>"

definition ex_stack1 :: "int Stack" where
  "ex_stack1 = \<lparr>top = Some (StackNode 7 None), ssize = 1\<rparr>"

text \<open>
  The min-queue of the first example after \<^verbatim>\<open>Remove\<close> of the item holding 30, after
  \<^verbatim>\<open>Remove\<close> of the item in the last slot (the one holding 20), and after the client
  lowers 30 to 5 and calls \<^verbatim>\<open>UpdateItem\<close>; and the state after the pop that follows.
\<close>

definition ex_r0 :: "int PriorityQueue" where
  "ex_r0 = \<lparr>items = [1, 2], compare = IntCompare, isMaxHeap = False,
            mem = [\<lparr>Value = 30, Index = - 1\<rparr>, \<lparr>Value = 10, Index = 0\<rparr>,
                   \<lparr>Value = 20, Index = 1\<rparr>]\<rparr>"


definition ex_u0 :: "int PriorityQueue" where
  "ex_u0 = \<lparr>items = [0, 1, 2], compare = IntCompare, isMaxHeap = False,
            mem = [\<lparr>Value = 5, Index = 0\<rparr>, \<lparr>Value = 10, Index = 1\<rparr>,
                   \<lparr>Value = 20, Index = 2\<rparr>]\<rparr>"


text \<open>
  A min-queue after the pushes 0, 1, 9, 5; the state after the client then writes 5 to
  the item at the root and 0 to the item in the last slot without calling
  \<^verbatim>\<open>UpdateItem\<close>; and what \<^verbatim>\<open>UpdateItem\<close> and the reference fix-up make of that state when
  called on the item holding 1.
\<close>

definition ex_p4 :: "int PriorityQueue" where
  "ex_p4 = \<lparr>items = [0, 1, 2, 3], compare = IntCompare, isMaxHeap = False,
            mem = [\<lparr>Value = 0, Index = 0\<rparr>, \<lparr>Value = 1, Index = 1\<rparr>,
                   \<lparr>Value = 9, Index = 2\<rparr>, \<lparr>Value = 5, Index = 3\<rparr>]\<rparr>"

definition ex_c6 :: "int PriorityQueue" where
  "ex_c6 = \<lparr>items = [0, 1, 2, 3], compare = IntCompare, isMaxHeap = False,
            mem = [\<lparr>Value = 5, Index = 0\<rparr>, \<lparr>Value = 1, Index = 1\<rparr>,
                   \<lparr>Value = 9, Index = 2\<rparr>, \<lparr>Value = 0, Index = 3\<rparr>]\<rparr>"

definition ex_c6_code :: "int PriorityQueue" where
  "ex_c6_code = \<lparr>items = [0, 3, 2, 1], compare = IntCompare, isMaxHeap = False,
                 mem = [\<lparr>Value = 5, Index = 0\<rparr>, \<lparr>Value = 1, Index = 3\<rparr>,
                        \<lparr>Value = 9, Index = 2\<rparr>, \<lparr>Value = 0, Index = 1\<rparr>]\<rparr>"

definition ex_c6_spec :: "int PriorityQueue" where
  "ex_c6_spec = \<lparr>items = [1, 0, 2, 3], compare = IntCompare, isMaxHeap = False,
                 mem = [\<lparr>Value = 5, Index = 1\<rparr>, \<lparr>Value = 1, Index = 0\<rparr>,
                        \<lparr>Value = 9, Index = 2\<rparr>, \<lparr>Value = 0, Index = 3\<rparr>]\<rparr>"

section \<open>Auxiliary notions for the proofs\<close>

text \<open>A queue state represents the list \<open>vs\<close> of values, front first.\<close>

definition queue_abs :: "'a Queue \<Rightarrow> 'a list \<Rightarrow> bool" where
  "queue_abs q vs = (\<exists>as. queue_repr q as \<and> queue_contents q as = vs)"

text \<open>
  The values a heap holds, by position, and the strict order that \<^verbatim>\<open>Less\<close> computes on
  them: \<open>lessV h x y\<close> is "\<open>x\<close> has strictly higher priority than \<open>y\<close>".
\<close>

definition vals :: "'a PriorityQueue \<Rightarrow> 'a list" where
  "vals h = map (\<lambda>a. Value (mem h ! a)) (items h)"

definition lessV :: "'a PriorityQueue \<Rightarrow> 'a \<Rightarrow> 'a \<Rightarrow> bool" where
  "lessV h x y = (if isMaxHeap h then 0 <s compare h x y else compare h x y <s 0)"

text \<open>
  Well-formedness of the store: every pointer in the slice is allocated, and no item
  is stored twice (\<^verbatim>\<open>Push\<close> allocates a new item for every value).
\<close>

definition wf_pq :: "'a PriorityQueue \<Rightarrow> bool" where
  "wf_pq h = ((\<forall>a \<in> set (items h). a < length (mem h)) \<and> distinct (items h))"

text \<open>Position-index consistency: the item at position \<open>i\<close> records \<open>i\<close>.\<close>

definition idx_ok :: "'a PriorityQueue \<Rightarrow> bool" where
  "idx_ok h = (\<forall>i < length (items h). Index (mem h ! (items h ! i)) = int i)"

text \<open>The effect of \<^verbatim>\<open>Swap\<close> at two positions that are in range.\<close>

definition swp :: "'a PriorityQueue \<Rightarrow> nat \<Rightarrow> nat \<Rightarrow> 'a PriorityQueue" where
  "swp h i j =
     (let a = items h ! i; b = items h ! j;
          m1 = (mem h)[b := (mem h ! b)\<lparr>Index := int i\<rparr>]
      in h\<lparr>items := (items h)[i := b, j := a], mem := m1[a := (m1 ! a)\<lparr>Index := int j\<rparr>]\<rparr>)"

text \<open>
  The heap property on the first \<open>n\<close> positions of a list of values, for a strict
  order \<open>lt\<close>: no value has strictly higher priority than its parent's.
\<close>

definition heap_upto :: "('a \<Rightarrow> 'a \<Rightarrow> bool) \<Rightarrow> 'a list \<Rightarrow> nat \<Rightarrow> bool" where
  "heap_upto lt xs n = (\<forall>k. 0 < k \<and> k < n \<longrightarrow> \<not> lt (xs ! k) (xs ! ((k - 1) div 2)))"

definition heap_ok :: "'a PriorityQueue \<Rightarrow> bool" where
  "heap_ok h = heap_upto (lessV h) (vals h) (length (items h))"

text \<open>
  The comparator contract of the interface: the sign of \<open>cmp b a\<close> is the opposite of
  the sign of \<open>cmp a b\<close>, and "not after" is transitive.
\<close>

definition comparator_ok :: "'a CompareFunc \<Rightarrow> bool" where
  "comparator_ok cmp =
     ((\<forall>a b. (cmp a b <s 0) = (0 <s cmp b a)) \<and>
      (\<forall>a b d. cmp a b \<le>s 0 \<longrightarrow> cmp b d \<le>s 0 \<longrightarrow> cmp a d \<le>s 0))"

text \<open>What the heap proofs need of the strict order.\<close>

definition ord_ok :: "('a \<Rightarrow> 'a \<Rightarrow> bool) \<Rightarrow> bool" where
  "ord_ok lt = ((\<forall>x y. lt x y \<longrightarrow> \<not> lt y x) \<and>
                (\<forall>x y z. \<not> lt y x \<longrightarrow> \<not> lt z y \<longrightarrow> \<not> lt z x))"

text \<open>
  The loops \<^verbatim>\<open>up\<close> and \<^verbatim>\<open>down\<close> on positions that are in range, where no bounds check
  fails: the form the proofs reason about. \<open>downN\<close> returns the final position too.
\<close>

function upN :: "'a PriorityQueue \<Rightarrow> nat \<Rightarrow> 'a PriorityQueue" where
  "upN h j =
     (if 0 < j \<and> lessV h (vals h ! j) (vals h ! ((j - 1) div 2))
      then upN (swp h ((j - 1) div 2) j) ((j - 1) div 2)
      else h)"
  by pat_completeness auto
termination
  by (relation "measure (\<lambda>(h, j). j)") auto

function downN :: "'a PriorityQueue \<Rightarrow> nat \<Rightarrow> nat \<Rightarrow> 'a PriorityQueue \<times> nat" where
  "downN h i n =
     (let j1 = 2 * i + 1
      in if j1 \<ge> n then (h, i)
         else (let j = (if j1 + 1 < n \<and> lessV h (vals h ! (j1 + 1)) (vals h ! j1)
                        then j1 + 1 else j1)
               in if lessV h (vals h ! j) (vals h ! i) then downN (swp h i j) j n
                  else (h, i)))"
  by pat_completeness auto
termination
  by (relation "measure (\<lambda>(h, i, n). n - i)") auto

text \<open>
  The heap property with one position excepted: \<open>up_pre\<close> allows the value at \<open>j\<close> to
  beat its parent's (the state \<^verbatim>\<open>up\<close> repairs), \<open>down_pre\<close> allows the children of \<open>i\<close>
  to beat the value at \<open>i\<close> (the state \<^verbatim>\<open>down\<close> repairs). In both, the children of the
  excepted position respect its parent.
\<close>

definition up_pre :: "('a \<Rightarrow> 'a \<Rightarrow> bool) \<Rightarrow> 'a list \<Rightarrow> nat \<Rightarrow> nat \<Rightarrow> bool" where
  "up_pre lt xs j n =
     ((\<forall>k. 0 < k \<and> k < n \<and> k \<noteq> j \<longrightarrow> \<not> lt (xs ! k) (xs ! ((k - 1) div 2))) \<and>
      (\<forall>k. 0 < k \<and> k < n \<and> (k - 1) div 2 = j \<and> 0 < j \<longrightarrow>
           \<not> lt (xs ! k) (xs ! ((j - 1) div 2))))"

definition down_pre :: "('a \<Rightarrow> 'a \<Rightarrow> bool) \<Rightarrow> 'a list \<Rightarrow> nat \<Rightarrow> nat \<Rightarrow> bool" where
  "down_pre lt xs i n =
     ((\<forall>k. 0 < k \<and> k < n \<and> (k - 1) div 2 \<noteq> i \<longrightarrow> \<not> lt (xs ! k) (xs ! ((k - 1) div 2))) \<and>
      (\<forall>k. 0 < k \<and> k < n \<and> (k - 1) div 2 = i \<and> 0 < i \<longrightarrow>
           \<not> lt (xs ! k) (xs ! ((i - 1) div 2))))"

text \<open>
  What a run of swaps among the first \<open>n\<close> positions leaves unchanged, from \<open>h0\<close> to \<open>h\<close>.
\<close>

definition frame :: "nat \<Rightarrow> 'a PriorityQueue \<Rightarrow> 'a PriorityQueue \<Rightarrow> bool" where
  "frame n h0 h =
     (compare h = compare h0 \<and> isMaxHeap h = isMaxHeap h0 \<and>
      length (mem h) = length (mem h0) \<and> length (items h) = length (items h0) \<and>
      (\<forall>a. Value (mem h ! a) = Value (mem h0 ! a)) \<and>
      mset (take n (items h)) = mset (take n (items h0)) \<and>
      drop n (items h) = drop n (items h0) \<and>
      (\<forall>a. a \<notin> set (take n (items h0)) \<longrightarrow> mem h ! a = mem h0 ! a) \<and>
      (wf_pq h0 \<longrightarrow> wf_pq h) \<and>
      (wf_pq h0 \<and> idx_ok h0 \<longrightarrow> idx_ok h))"

text \<open>
  The state \<^verbatim>\<open>Fix\<close> repairs: the heap property may fail on the edges that touch
  position \<open>i\<close>, and only there. \<open>fixN\<close> is the body of \<^verbatim>\<open>Fix\<close> (and of the repair in
  \<^verbatim>\<open>Remove\<close>) on positions in range.
\<close>

definition fix_pre :: "('a \<Rightarrow> 'a \<Rightarrow> bool) \<Rightarrow> 'a list \<Rightarrow> nat \<Rightarrow> nat \<Rightarrow> bool" where
  "fix_pre lt xs i n =
     ((\<forall>k. 0 < k \<and> k < n \<and> k \<noteq> i \<and> (k - 1) div 2 \<noteq> i \<longrightarrow>
           \<not> lt (xs ! k) (xs ! ((k - 1) div 2))) \<and>
      (\<forall>k. 0 < k \<and> k < n \<and> (k - 1) div 2 = i \<and> 0 < i \<longrightarrow>
           \<not> lt (xs ! k) (xs ! ((i - 1) div 2))))"

definition fixN :: "'a PriorityQueue \<Rightarrow> nat \<Rightarrow> nat \<Rightarrow> 'a PriorityQueue" where
  "fixN h i n = (if snd (downN h i n) > i then fst (downN h i n) else upN (fst (downN h i n)) i)"

text \<open>The effect of the method \<^verbatim>\<open>Pop\<close> of the heap on a non-empty slice.\<close>

definition popN :: "'a PriorityQueue \<Rightarrow> nat \<times> 'a PriorityQueue" where
  "popN h =
     (let n = length (items h) - 1; a = items h ! n
      in (a, h\<lparr>items := take n (items h), mem := (mem h)[a := (mem h ! a)\<lparr>Index := - 1\<rparr>]\<rparr>))"

text \<open>The state \<^verbatim>\<open>heap.Push\<close> starts \<^verbatim>\<open>up\<close> from, after \<^verbatim>\<open>NewItem\<close> and the method \<^verbatim>\<open>Push\<close>.\<close>

definition pushN :: "'a \<Rightarrow> 'a PriorityQueue \<Rightarrow> 'a PriorityQueue" where
  "pushN v h =
     h\<lparr>items := items h @ [length (mem h)],
       mem := mem h @ [\<lparr>Value = v, Index = int (length (items h))\<rparr>]\<rparr>"

text \<open>Two heaps that hold the same items and order values in the same way.\<close>

definition same_order :: "'a PriorityQueue \<Rightarrow> 'a PriorityQueue \<Rightarrow> bool" where
  "same_order h h' = (items h = items h' \<and> mem h = mem h' \<and> lessV h = lessV h')"

section \<open>Stack: proofs\<close>

lemma stack_Pop_Push: "stack_Pop zero (stack_Push v s) = ((v, None), s)"
  by (simp add: stack_Pop_def stack_Push_def)

lemma stack_pop_n_add:
  "stack_pop_n (m + n) zero s =
     (let (rs, s1) = stack_pop_n m zero s; (rs', s2) = stack_pop_n n zero s1 in (rs @ rs', s2))"
  by (induction m arbitrary: s) (auto simp: Let_def split: prod.splits)

lemma stack_lifo_gen:
  "stack_pop_n (length vs) zero (stack_push_all vs s) = (map (\<lambda>v. (v, None)) (rev vs), s)"
proof (induction vs arbitrary: s)
  case Nil
  show ?case by simp
next
  case (Cons v vs)
  have "stack_pop_n (length vs + 1) zero (stack_push_all vs (stack_Push v s))
        = (map (\<lambda>v. (v, None)) (rev vs) @ [(v, None)], s)"
    unfolding stack_pop_n_add by (simp add: Cons.IH stack_Pop_Push)
  then show ?case by simp
qed

lemma stack_reach_inv: "stack_reach s \<Longrightarrow> ssize s = int (chain_len (top s))"
proof (induction rule: stack_reach.induct)
  case sr_new
  then show ?case by (simp add: NewStack_def)
next
  case (sr_push s v)
  then show ?case by (simp add: stack_Push_def)
next
  case (sr_pop s zero)
  show ?case
  proof (cases "top s")
    case None
    with sr_pop show ?thesis by (simp add: stack_Pop_def)
  next
    case (Some n)
    with sr_pop show ?thesis by (cases n) (simp add: stack_Pop_def)
  qed
next
  case (sr_clear s)
  then show ?case by (simp add: stack_Clear_def)
qed

lemma chain_len_0: "(chain_len p = 0) = (p = None)"
  by (cases p rule: chain_len.cases) auto

text \<open>
  C2 (LIFO). After the pushes \<open>vs\<close> on any stack \<open>s\<close>, the next \<open>length vs\<close> calls of
  \<^verbatim>\<open>Pop\<close> all succeed (their error component is \<open>None\<close>) and return the pushed values
  in reverse order of pushing; the stack is then \<open>s\<close> again.
\<close>

theorem C2_stack_lifo:
  "stack_pop_n (length vs) zero (stack_push_all vs s) = (map (\<lambda>v. (v, None)) (rev vs), s)"
  by (rule stack_lifo_gen)

section \<open>Queue: proofs\<close>

lemma qchain_bound: "qchain m p as \<Longrightarrow> a \<in> set as \<Longrightarrow> a < length m"
  by (induction as arbitrary: p) auto

lemma qchain_frame:
  "qchain m p as \<Longrightarrow> r \<notin> set as \<Longrightarrow> qchain ((m @ [nd])[r := x]) p as"
proof (induction as arbitrary: p)
  case Nil
  then show ?case by simp
next
  case (Cons a as)
  then show ?case by (auto simp: nth_append)
qed

lemma qchain_snoc:
  "qchain m p as \<Longrightarrow> distinct as \<Longrightarrow> as \<noteq> [] \<Longrightarrow>
   qchain ((m @ [\<lparr>qValue = v, qNext = None\<rparr>])
             [last as := ((m @ [\<lparr>qValue = v, qNext = None\<rparr>]) ! last as)\<lparr>qNext := Some (length m)\<rparr>])
          p (as @ [length m])"
proof (induction as arbitrary: p)
  case Nil
  then show ?case by simp
next
  case (Cons a as)
  show ?case
  proof (cases "as = []")
    case True
    with Cons.prems show ?thesis by (auto simp: nth_append)
  next
    case False
    with Cons.prems have la: "last as \<noteq> a" by auto
    from Cons.prems False have "last as < length m"
      using qchain_bound[of m p "a # as" "last as"] by auto
    with Cons False la show ?thesis by (auto simp: nth_append)
  qed
qed

lemma queue_abs_New: "queue_abs NewQueue []"
  by (auto simp: queue_abs_def queue_repr_def NewQueue_def queue_contents_def)

lemma queue_abs_Clear: "queue_abs (queue_Clear q) []"
  by (auto simp: queue_abs_def queue_repr_def queue_Clear_def queue_contents_def)

lemma queue_abs_empty: "queue_abs q vs \<Longrightarrow> queue_IsEmpty q = (vs = [])"
  unfolding queue_abs_def queue_repr_def queue_IsEmpty_def queue_contents_def
  by (auto) (case_tac as; auto)+

lemma queue_abs_size: "queue_abs q vs \<Longrightarrow> qsize q = int (length vs)"
  unfolding queue_abs_def queue_repr_def queue_contents_def by auto

lemma queue_abs_Push:
  assumes "queue_abs q vs"
  shows "\<exists>q'. queue_Push v q = Inr q' \<and> queue_abs q' (vs @ [v])"
proof -
  from assms obtain as where r: "queue_repr q as" and c: "queue_contents q as = vs"
    by (auto simp: queue_abs_def)
  have bd: "\<And>a. a \<in> set as \<Longrightarrow> a < length (qmem q)"
    using r qchain_bound by (auto simp: queue_repr_def)
  show ?thesis
  proof (cases "as = []")
    case True
    with r c show ?thesis
      by (auto simp: queue_abs_def queue_repr_def queue_Push_def queue_IsEmpty_def
          queue_contents_def Let_def intro!: exI[of _ "[length (qmem q)]"])
  next
    case False
    then have fr: "front q \<noteq> None" using r by (cases as) (auto simp: queue_repr_def)
    have rr: "rear q = Some (last as)" using r False by (simp add: queue_repr_def)
    have lb: "last as < length (qmem q)" using bd False by simp
    let ?m = "(qmem q @ [\<lparr>qValue = v, qNext = None\<rparr>])
             [last as := ((qmem q @ [\<lparr>qValue = v, qNext = None\<rparr>]) ! last as)\<lparr>qNext := Some (length (qmem q))\<rparr>]"
    let ?q' = "q\<lparr>qmem := ?m, rear := Some (length (qmem q)), qsize := qsize q + 1\<rparr>"
    from fr obtain f where ff: "front q = Some f" by blast
    have p: "queue_Push v q = Inr ?q'"
      using ff rr lb by (simp add: queue_Push_def queue_IsEmpty_def Let_def)
    have ch: "qchain ?m (front q) (as @ [length (qmem q)])"
      using qchain_snoc[of "qmem q" "front q" as v] r False by (simp add: queue_repr_def)
    have d: "distinct (as @ [length (qmem q)])" using r bd by (auto simp: queue_repr_def)
    have rp: "queue_repr ?q' (as @ [length (qmem q)])"
      using ch d r by (simp add: queue_repr_def)
    have "map (\<lambda>a. qValue (?m ! a)) as = map (\<lambda>a. qValue (qmem q ! a)) as"
      using bd lb by (auto simp: nth_append nth_list_update)
    then have "map (\<lambda>a. qValue (?m ! a)) as = vs"
      using c by (simp only: queue_contents_def)
    moreover have "qValue (?m ! length (qmem q)) = v"
      using lb by (simp add: nth_append)
    ultimately have ct: "queue_contents ?q' (as @ [length (qmem q)]) = vs @ [v]"
      by (simp add: queue_contents_def)
    show ?thesis using p rp ct unfolding queue_abs_def by blast
  qed
qed

lemma queue_abs_Pop:
  assumes "queue_abs q (v # vs)"
  shows "\<exists>q'. queue_Pop zero q = Inr ((v, None), q') \<and> queue_abs q' vs"
proof -
  from assms obtain a as where r: "queue_repr q (a # as)" and c: "queue_contents q (a # as) = v # vs"
    by (auto simp: queue_abs_def queue_contents_def)
  from r have f: "front q = Some a" "a < length (qmem q)" and ch: "qchain (qmem q) (qNext (qmem q ! a)) as"
    by (auto simp: queue_repr_def)
  have emp: "(qNext (qmem q ! a) = None) = (as = [])" using ch by (cases as) auto
  show ?thesis using f ch emp r c
    by (auto simp: queue_Pop_def queue_IsEmpty_def qderef_def Let_def queue_abs_def
        queue_repr_def queue_contents_def intro!: exI[of _ as])
qed

lemma queue_abs_Pop_empty:
  "queue_abs q [] \<Longrightarrow> queue_Pop zero q = Inr ((zero, Some ''queue is empty''), q)"
  using queue_abs_empty[of q "[]"] by (simp add: queue_Pop_def)

lemma queue_reach_abs: "queue_reach q \<Longrightarrow> \<exists>vs. queue_abs q vs"
proof (induction rule: queue_reach.induct)
  case qr_new
  then show ?case using queue_abs_New by blast
next
  case (qr_push q v q')
  then obtain vs where a: "queue_abs q vs" by blast
  from queue_abs_Push[OF a, of v] qr_push.hyps show ?case by auto
next
  case (qr_pop q zero r q')
  then obtain vs where a: "queue_abs q vs" by blast
  show ?case
  proof (cases vs)
    case Nil
    with a qr_pop.hyps show ?thesis using queue_abs_Pop_empty[of q zero] by auto
  next
    case (Cons v vs')
    with a qr_pop.hyps show ?thesis using queue_abs_Pop[of q v vs' zero] by auto
  qed
next
  case (qr_clear q)
  then show ?case using queue_abs_Clear by blast
qed

lemma queue_push_all_abs:
  "queue_abs q xs \<Longrightarrow> \<exists>q'. queue_push_all vs q = Inr q' \<and> queue_abs q' (xs @ vs)"
proof (induction vs arbitrary: q xs)
  case Nil
  then show ?case by simp
next
  case (Cons v vs)
  from queue_abs_Push[OF Cons.prems, of v] obtain q1 where
    p: "queue_Push v q = Inr q1" and a: "queue_abs q1 (xs @ [v])" by blast
  from Cons.IH[OF a] p show ?case by auto
qed

lemma queue_pop_n_abs:
  "queue_abs q (xs @ ys) \<Longrightarrow>
   \<exists>q'. queue_pop_n (length xs) zero q = Inr (map (\<lambda>v. (v, None)) xs, q') \<and> queue_abs q' ys"
proof (induction xs arbitrary: q)
  case Nil
  then show ?case by simp
next
  case (Cons x xs)
  from queue_abs_Pop[of q x "xs @ ys" zero] Cons.prems obtain q1 where
    p: "queue_Pop zero q = Inr ((x, None), q1)" and a: "queue_abs q1 (xs @ ys)" by auto
  from Cons.IH[OF a] p show ?case by auto
qed

text \<open>
  C3 as stated (FIFO from every queue) fails on a queue that already holds a value:
  the queue holding 1, after \<^verbatim>\<open>Push(2)\<close>, pops 1 and not 2.
\<close>

theorem C3_counterexample:
  "queue_Push (1::int) NewQueue
     = Inr \<lparr>front = Some 0, rear = Some 0, qsize = 1, qmem = [\<lparr>qValue = 1, qNext = None\<rparr>]\<rparr>
   \<and> queue_push_all [2]
         \<lparr>front = Some 0, rear = Some 0, qsize = 1, qmem = [\<lparr>qValue = 1::int, qNext = None\<rparr>]\<rparr>
     = Inr \<lparr>front = Some 0, rear = Some 1, qsize = 2,
             qmem = [\<lparr>qValue = 1, qNext = Some 1\<rparr>, \<lparr>qValue = 2, qNext = None\<rparr>]\<rparr>
   \<and> queue_pop_n 1 0
         \<lparr>front = Some 0, rear = Some 1, qsize = 2,
            qmem = [\<lparr>qValue = 1::int, qNext = Some 1\<rparr>, \<lparr>qValue = 2, qNext = None\<rparr>]\<rparr>
     = Inr ([(1, None)],
            \<lparr>front = Some 1, rear = Some 1, qsize = 1,
               qmem = [\<lparr>qValue = 1, qNext = Some 1\<rparr>, \<lparr>qValue = 2, qNext = None\<rparr>]\<rparr>)
   \<and> [(1::int, None :: error option)] \<noteq> map (\<lambda>v. (v, None)) [2]"
  by (simp add: queue_Push_def queue_Pop_def NewQueue_def queue_IsEmpty_def qderef_def Let_def)

text \<open>
  C3 (FIFO), amended. On every reachable queue that is empty (freshly constructed, fully
  drained or cleared), the pushes \<open>vs\<close> all succeed, and the next \<open>length vs\<close> calls of
  \<^verbatim>\<open>Pop\<close> all succeed and return the pushed values in the order of pushing.
\<close>

theorem C3_queue_fifo:
  assumes "queue_reach q" and "queue_IsEmpty q"
  shows "\<exists>q1 q2. queue_push_all vs q = Inr q1 \<and>
           queue_pop_n (length vs) zero q1 = Inr (map (\<lambda>v. (v, None)) vs, q2)"
proof -
  from assms queue_reach_abs queue_abs_empty have a: "queue_abs q []" by blast
  from queue_push_all_abs[OF a, of vs] obtain q1 where
    p: "queue_push_all vs q = Inr q1" and a1: "queue_abs q1 vs" by auto
  from queue_pop_n_abs[of q1 vs "[]" zero] a1 p show ?thesis by auto
qed

theorem C3_queue_fifo_witness:
  "queue_reach (NewQueue :: int Queue) \<and> queue_IsEmpty (NewQueue :: int Queue) \<and>
   (\<exists>q1 q2. queue_push_all [10, 20, 30] (NewQueue :: int Queue) = Inr q1 \<and>
       queue_pop_n 3 0 q1 = Inr ([(10, None), (20, None), (30, None)], q2))"
proof -
  have r: "queue_reach (NewQueue :: int Queue)" by (rule qr_new)
  have e: "queue_IsEmpty (NewQueue :: int Queue)" by (simp add: queue_IsEmpty_def NewQueue_def)
  have l: "length [10, 20, 30 :: int] = 3" by simp
  from C3_queue_fifo[OF r e, of "[10, 20, 30]" 0] have
    "\<exists>q1 q2. queue_push_all [10, 20, 30] (NewQueue :: int Queue) = Inr q1 \<and>
       queue_pop_n 3 0 q1 = Inr (map (\<lambda>v. (v, None)) [10, 20, 30], q2)"
    unfolding l .
  with r e show ?thesis by simp
qed

section \<open>Priority queue: the loops on positions in range\<close>

declare upN.simps [simp del] downN.simps [simp del] up.simps [simp del] down_loop.simps [simp del]
  Init_loop.simps [simp del]

lemma item_at_in: "0 \<le> i \<Longrightarrow> i < int (length (items h)) \<Longrightarrow> item_at h i = Inr (items h ! nat i)"
  by (simp add: item_at_def Len_def)

lemma item_at_nat: "i < length (items h) \<Longrightarrow> item_at h (int i) = Inr (items h ! i)"
  by (simp add: item_at_def Len_def)

lemma item_at_out: "\<not> (0 \<le> i \<and> i < int (length (items h))) \<Longrightarrow> item_at h i = Inl IndexOutOfRange"
  by (auto simp add: item_at_def Len_def)

lemma Less_nat:
  assumes "wf_pq h" "i < length (items h)" "j < length (items h)"
  shows "Less h (int i) (int j) = Inr (lessV h (vals h ! i) (vals h ! j))"
  using assms
  by (auto simp: Less_def item_at_nat deref_def wf_pq_def lessV_def vals_def Let_def)

lemma Swap_nat:
  assumes "wf_pq h" "i < length (items h)" "j < length (items h)"
  shows "Swap h (int i) (int j) = Inr (swp h i j)"
  using assms
  by (auto simp: Swap_def item_at_nat item_at_def Len_def set_Index_def wf_pq_def swp_def Let_def nth_list_update)

lemma swp_fields [simp]:
  "compare (swp h i j) = compare h" "isMaxHeap (swp h i j) = isMaxHeap h"
  "length (items (swp h i j)) = length (items h)" "length (mem (swp h i j)) = length (mem h)"
  "items (swp h i j) = (items h)[i := items h ! j, j := items h ! i]"
  by (simp_all add: swp_def Let_def)

lemma lessV_swp [simp]: "lessV (swp h i j) = lessV h"
  by (rule ext)+ (simp add: lessV_def)

lemma upd_Index_Value [simp]: "Value (m[b := (m ! b)\<lparr>Index := k\<rparr>] ! a) = Value (m ! a)"
proof (cases "a = b")
  case True
  then show ?thesis by (cases "b < length m") (simp_all add: list_update_beyond)
next
  case False
  then show ?thesis by simp
qed

lemma swp_Value [simp]: "Value (mem (swp h i j) ! a) = Value (mem h ! a)"
proof -
  let ?m1 = "(mem h)[items h ! j := (mem h ! (items h ! j))\<lparr>Index := int i\<rparr>]"
  have "Value (?m1[items h ! i := (?m1 ! (items h ! i))\<lparr>Index := int j\<rparr>] ! a) = Value (?m1 ! a)"
    by (rule upd_Index_Value)
  then show ?thesis by (simp add: swp_def Let_def)
qed

lemma swp_mset: "i < length (items h) \<Longrightarrow> j < length (items h) \<Longrightarrow>
   mset (items (swp h i j)) = mset (items h)"
  by (simp add: mset_swap)

lemma swp_wf: "wf_pq h \<Longrightarrow> i < length (items h) \<Longrightarrow> j < length (items h) \<Longrightarrow> wf_pq (swp h i j)"
  unfolding wf_pq_def
  using swp_mset[of i h j] 
  by (metis (no_types, lifting) mset_eq_setD distinct_swap swp_fields(4,5))

lemma vals_swp: "i < length (items h) \<Longrightarrow> j < length (items h) \<Longrightarrow>
   vals (swp h i j) = (vals h)[i := vals h ! j, j := vals h ! i]"
  by (simp add: vals_def map_update)

lemma length_vals [simp]: "length (vals h) = length (items h)"
  by (simp add: vals_def)

lemma swp_idx_ok:
  assumes "wf_pq h" "idx_ok h" "i < length (items h)" "j < length (items h)"
  shows "idx_ok (swp h i j)"
  using assms unfolding idx_ok_def wf_pq_def
  by (auto simp: swp_def Let_def nth_list_update nth_eq_iff_index_eq)


lemma sdiv_parent: "(int j - 1) sdiv 2 = int ((j - 1) div 2)"
proof (cases j)
  case 0
  then show ?thesis by (simp add: signed_divide_int_def)
next
  case (Suc k)
  then show ?thesis by (simp add: signed_divide_int_def sgn_if zdiv_int)
qed

lemma parent_less: "0 < j \<Longrightarrow> (j - 1) div 2 < (j::nat)"
  by arith

lemma up_refine:
  "wf_pq h \<Longrightarrow> j < length (items h) \<Longrightarrow> up h (int j) = Inr (upN h j)"
proof (induction h j rule: upN.induct)
  case (1 h j)
  let ?p = "(j - 1) div 2"
  show ?case
  proof (cases "0 < j")
    case False
    then show ?thesis
      by (subst up.simps, subst upN.simps) (simp add: signed_divide_int_def)
  next
    case True
    then have pj: "?p < j" by arith
    then have pl: "?p < length (items h)" using "1.prems" by simp
    have ne: "int ?p \<noteq> int j" using pj by simp
    show ?thesis
    proof (cases "lessV h (vals h ! j) (vals h ! ?p)")
      case False
      then show ?thesis using "1.prems" pl ne
        by (subst up.simps, subst upN.simps) (simp add: sdiv_parent Less_nat Let_def)
    next
      case lt: True
      have w: "wf_pq (swp h ?p j)" using "1.prems" pl by (intro swp_wf)
      have ih: "up (swp h ?p j) (int ?p) = Inr (upN (swp h ?p j) ?p)"
        using "1.IH" True lt w pl by simp
      show ?thesis using "1.prems" pl ne lt True ih
        by (subst up.simps, subst upN.simps) (simp add: sdiv_parent Less_nat Swap_nat Let_def)
    qed
  qed
qed

lemma down_refine:
  "wf_pq h \<Longrightarrow> n \<le> length (items h) \<Longrightarrow>
   down_loop h (int i) (int n) = Inr (fst (downN h i n), int (snd (downN h i n)))"
proof (induction h i n rule: downN.induct)
  case (1 h i n)
  let ?j1 = "2 * i + 1"
  show ?case
  proof (cases "?j1 \<ge> n")
    case True
    then have "downN h i n = (h, i)" by (subst downN.simps) (simp add: Let_def)
    moreover from True have "down_loop h (int i) (int n) = Inr (h, int i)"
      by (subst down_loop.simps) (simp add: Let_def)
    ultimately show ?thesis by simp
  next
    case False
    define j where "j = (if ?j1 + 1 < n \<and> lessV h (vals h ! (?j1 + 1)) (vals h ! ?j1)
                        then ?j1 + 1 else ?j1)"
    have jn: "j < n" using False by (auto simp: j_def)
    have jl: "j < length (items h)" "i < length (items h)" "?j1 < length (items h)"
      using jn False "1.prems" by auto
    have b: "(if 2 * int i + 1 + 1 < int n then Less h (2 * int i + 1 + 1) (2 * int i + 1) else Inr False)
             = Inr (?j1 + 1 < n \<and> lessV h (vals h ! (?j1 + 1)) (vals h ! ?j1))"
    proof (cases "?j1 + 1 < n")
      case True
      then have "Less h (int (?j1 + 1)) (int ?j1) = Inr (lessV h (vals h ! (?j1 + 1)) (vals h ! ?j1))"
        using "1.prems" by (intro Less_nat) auto
      then show ?thesis using True by (simp add: algebra_simps)
    next
      case False
      then show ?thesis by auto
    qed
    have ji: "(if ?j1 + 1 < n \<and> lessV h (vals h ! (?j1 + 1)) (vals h ! ?j1)
               then 2 * int i + 1 + 1 else 2 * int i + 1) = int j"
      by (simp add: j_def)
    have l2: "Less h (int j) (int i) = Inr (lessV h (vals h ! j) (vals h ! i))"
      using "1.prems" jl by (intro Less_nat) auto
    have sw: "Swap h (int i) (int j) = Inr (swp h i j)"
      using "1.prems" jl by (intro Swap_nat) auto
    have dn: "downN h i n = (if lessV h (vals h ! j) (vals h ! i) then downN (swp h i j) j n else (h, i))"
      using False by (subst downN.simps) (simp add: Let_def j_def)
    have c1: "\<not> (int n \<le> 2 * int i + 1 \<or> 2 * int i + 1 < 0)" using False by simp
    have dl: "down_loop h (int i) (int n) =
               (if \<not> lessV h (vals h ! j) (vals h ! i) then Inr (h, int i)
                else down_loop (swp h i j) (int j) (int n))"
      by (subst down_loop.simps)
         (simp only: Let_def c1 if_False b sum.case ji l2 sw not_not if_not_P cong: if_cong)
    show ?thesis
    proof (cases "lessV h (vals h ! j) (vals h ! i)")
      case nl: False
      then show ?thesis using dn dl by simp
    next
      case lt: True
      have w: "wf_pq (swp h i j)" using "1.prems" jl by (intro swp_wf)
      have ih: "down_loop (swp h i j) (int j) (int n)
                  = Inr (fst (downN (swp h i j) j n), int (snd (downN (swp h i j) j n)))"
        using "1.IH"[OF refl _ j_def] False lt "1.prems" w by simp
      then show ?thesis using dn dl lt by simp
    qed
  qed
qed

section \<open>Priority queue: the heap property under one swap\<close>

lemma up_pre_stop:
  "up_pre lt xs j n \<Longrightarrow> j = 0 \<or> \<not> lt (xs ! j) (xs ! ((j - 1) div 2)) \<Longrightarrow> heap_upto lt xs n"
  unfolding up_pre_def heap_upto_def by (cases "j = 0") auto

lemma up_pre_step:
  assumes o: "ord_ok lt" and pre: "up_pre lt xs j n" and j: "0 < j" "j < n" "n \<le> length xs"
    and l: "lt (xs ! j) (xs ! ((j - 1) div 2))"
  shows "up_pre lt (xs[(j - 1) div 2 := xs ! j, j := xs ! ((j - 1) div 2)]) ((j - 1) div 2) n"
proof -
  define p where "p = (j - 1) div 2"
  define ys where "ys = xs[p := xs ! j, j := xs ! p]"
  have pj: "p < j" using j unfolding p_def by arith
  have pd: "(j - Suc 0) div 2 = p" by (simp add: p_def)
  have asym: "\<And>x y. lt x y \<Longrightarrow> \<not> lt y x" and tr: "\<And>x y z. \<not> lt y x \<Longrightarrow> \<not> lt z y \<Longrightarrow> \<not> lt z x"
    using o unfolding ord_ok_def by blast+
  have yp: "ys ! p = xs ! j" and yj: "ys ! j = xs ! p"
    and yo: "\<And>k. k \<noteq> p \<Longrightarrow> k \<noteq> j \<Longrightarrow> ys ! k = xs ! k"
    using pj j by (auto simp: ys_def)
  have e: "\<And>k. 0 < k \<Longrightarrow> k < n \<Longrightarrow> k \<noteq> j \<Longrightarrow> \<not> lt (xs ! k) (xs ! ((k - 1) div 2))"
    and g: "\<And>k. 0 < k \<Longrightarrow> k < n \<Longrightarrow> (k - 1) div 2 = j \<Longrightarrow> \<not> lt (xs ! k) (xs ! p)"
    using pre j unfolding up_pre_def p_def by blast+
  have l': "lt (xs ! j) (xs ! p)" using l by (simp add: p_def)
  have 1: "\<not> lt (ys ! k) (ys ! ((k - 1) div 2))" if k: "0 < k" "k < n" "k \<noteq> p" for k
  proof -
    have kp: "(k - 1) div 2 < k" using k by arith
    consider "k = j" | "k \<noteq> j" "(k - 1) div 2 = p" | "k \<noteq> j" "(k - 1) div 2 = j"
      | "k \<noteq> j" "(k - 1) div 2 \<noteq> p" "(k - 1) div 2 \<noteq> j" by blast
    then show ?thesis
    proof cases
      case 1
      then show ?thesis using yp yj l' asym pd by simp
    next
      case 2
      then have "\<not> lt (xs ! k) (xs ! p)" using e[of k] k by simp
      with l' asym tr have "\<not> lt (xs ! k) (xs ! j)" by blast
      then show ?thesis using 2 yo[of k] yp k by simp
    next
      case 3
      then show ?thesis using g[of k] k yo[of k] yj by simp
    next
      case 4
      then show ?thesis using e[of k] k yo[of k] yo[of "(k - 1) div 2"] by simp
    qed
  qed
  have 2: "\<not> lt (ys ! k) (ys ! ((p - 1) div 2))" if k: "0 < k" "k < n" "(k - 1) div 2 = p" "0 < p" for k
  proof -
    have pp: "(p - 1) div 2 < p" using k by arith
    then have ypp: "ys ! ((p - 1) div 2) = xs ! ((p - 1) div 2)" using yo pj by simp
    have ep: "\<not> lt (xs ! p) (xs ! ((p - 1) div 2))" using e[of p] k pj j by simp
    show ?thesis
    proof (cases "k = j")
      case True
      then show ?thesis using yj ypp ep by simp
    next
      case False
      have "k \<noteq> p" using k by arith
      then have "ys ! k = xs ! k" using yo False by simp
      moreover have "\<not> lt (xs ! k) (xs ! p)" using e[of k] k False by simp
      ultimately show ?thesis using ep tr ypp by metis
    qed
  qed
  show ?thesis using 1 2 unfolding up_pre_def ys_def p_def by blast
qed

lemma down_pre_stop:
  "down_pre lt xs i n \<Longrightarrow> (\<forall>k. 0 < k \<and> k < n \<and> (k - 1) div 2 = i \<longrightarrow> \<not> lt (xs ! k) (xs ! i))
   \<Longrightarrow> heap_upto lt xs n"
  unfolding down_pre_def heap_upto_def by auto

lemma down_pre_step:
  assumes o: "ord_ok lt" and pre: "down_pre lt xs i n" and j: "0 < j" "j < n" "n \<le> length xs"
    and ji: "(j - 1) div 2 = i"
    and l: "lt (xs ! j) (xs ! i)"
    and sib: "\<And>k. 0 < k \<Longrightarrow> k < n \<Longrightarrow> (k - 1) div 2 = i \<Longrightarrow> \<not> lt (xs ! k) (xs ! j)"
  shows "down_pre lt (xs[i := xs ! j, j := xs ! i]) j n"
proof -
  define ys where "ys = xs[i := xs ! j, j := xs ! i]"
  have ij: "i < j" using j ji by arith
  have asym: "\<And>x y. lt x y \<Longrightarrow> \<not> lt y x" and tr: "\<And>x y z. \<not> lt y x \<Longrightarrow> \<not> lt z y \<Longrightarrow> \<not> lt z x"
    using o unfolding ord_ok_def by blast+
  have yi: "ys ! i = xs ! j" and yj: "ys ! j = xs ! i"
    and yo: "\<And>k. k \<noteq> i \<Longrightarrow> k \<noteq> j \<Longrightarrow> ys ! k = xs ! k"
    using ij j by (auto simp: ys_def)
  have e: "\<And>k. 0 < k \<Longrightarrow> k < n \<Longrightarrow> (k - 1) div 2 \<noteq> i \<Longrightarrow> \<not> lt (xs ! k) (xs ! ((k - 1) div 2))"
    and g: "\<And>k. 0 < k \<Longrightarrow> k < n \<Longrightarrow> (k - 1) div 2 = i \<Longrightarrow> 0 < i \<Longrightarrow> \<not> lt (xs ! k) (xs ! ((i - 1) div 2))"
    using pre unfolding down_pre_def by blast+
  have 1: "\<not> lt (ys ! k) (ys ! ((k - 1) div 2))" if k: "0 < k" "k < n" "(k - 1) div 2 \<noteq> j" for k
  proof -
    have kp: "(k - 1) div 2 < k" using k by arith
    consider "k = j" | "k = i" | "k \<noteq> j" "k \<noteq> i" "(k - 1) div 2 = i"
      | "k \<noteq> j" "k \<noteq> i" "(k - 1) div 2 \<noteq> i" by blast
    then show ?thesis
    proof cases
      case 1
      then show ?thesis using yi yj l asym ji by simp
    next
      case 2
      then have "(i - 1) div 2 < i" using k by arith
      then have "ys ! ((i - 1) div 2) = xs ! ((i - 1) div 2)" using yo ij by simp
      then show ?thesis using 2 yi g[of j] j ji k by simp
    next
      case 3
      then show ?thesis using yo[of k] yi sib[of k] k by simp
    next
      case 4
      then show ?thesis using e[of k] k yo[of k] yo[of "(k - 1) div 2"] by simp
    qed
  qed
  have 2: "\<not> lt (ys ! k) (ys ! ((j - 1) div 2))" if k: "0 < k" "k < n" "(k - 1) div 2 = j" for k
  proof -
    have "j < k" using k by arith
    then have "ys ! k = xs ! k" using yo ij by simp
    moreover have "\<not> lt (xs ! k) (xs ! j)" using e[of k] k ij by simp
    ultimately show ?thesis using ji yi by simp
  qed
  show ?thesis using 1 2 unfolding down_pre_def ys_def by blast
qed


section \<open>Priority queue: what the loops leave unchanged\<close>

lemma frame_refl: "frame n h h"
  by (simp add: frame_def)

lemma take_swap_mset:
  assumes "a < n" "b < n" "n \<le> length xs"
  shows "mset (take n (xs[a := xs ! b, b := xs ! a])) = mset (take n xs)"
proof -
  have e: "xs ! a = take n xs ! a" "xs ! b = take n xs ! b" using assms by simp_all
  have "take n (xs[a := xs ! b, b := xs ! a]) = (take n xs)[a := take n xs ! b, b := take n xs ! a]"
    unfolding e[symmetric] by (simp add: take_update_swap)
  moreover have "mset ((take n xs)[a := take n xs ! b, b := take n xs ! a]) = mset (take n xs)"
    using assms by (intro mset_swap) simp_all
  ultimately show ?thesis by simp
qed

lemma frame_swp:
  assumes f: "frame n h0 h" and a: "a < n" and b: "b < n" and n: "n \<le> length (items h)"
  shows "frame n h0 (swp h a b)"
proof -
  have al: "a < length (items h)" and bl: "b < length (items h)" using a b n by auto
  have ms: "mset (take n (items (swp h a b))) = mset (take n (items h0))"
    using f take_swap_mset[OF a b n] by (simp add: frame_def)
  have dr: "drop n (items (swp h a b)) = drop n (items h0)"
    using f a b by (simp add: frame_def)
  have st: "set (take n (items h)) = set (take n (items h0))"
    using f mset_eq_setD by (auto simp: frame_def)
  have "take n (items h) ! a \<in> set (take n (items h))" "take n (items h) ! b \<in> set (take n (items h))"
    using a b n by (simp_all only: nth_mem length_take min_absorb2)
  then have ia: "items h ! a \<in> set (take n (items h))" and ib: "items h ! b \<in> set (take n (items h))"
    using a b by simp_all
  have out: "mem (swp h a b) ! x = mem h0 ! x" if "x \<notin> set (take n (items h0))" for x
  proof -
    from that st ia ib have "x \<noteq> items h ! a" "x \<noteq> items h ! b" by auto
    then have "mem (swp h a b) ! x = mem h ! x" by (simp add: swp_def Let_def)
    with f that show ?thesis by (simp add: frame_def)
  qed
  have fw: "wf_pq h0 \<Longrightarrow> wf_pq h" and fi: "wf_pq h0 \<Longrightarrow> idx_ok h0 \<Longrightarrow> idx_ok h"
    using f by (simp_all add: frame_def)
  have w: "wf_pq h0 \<Longrightarrow> wf_pq (swp h a b)"
    using fw al bl by (intro swp_wf)
  have ix: "wf_pq h0 \<Longrightarrow> idx_ok h0 \<Longrightarrow> idx_ok (swp h a b)"
    using fw fi al bl by (intro swp_idx_ok)
  show ?thesis
    unfolding frame_def using f ms dr out w ix by (simp add: frame_def)
qed

lemma upN_frame:
  "frame n h0 h \<Longrightarrow> j < n \<Longrightarrow> n \<le> length (items h) \<Longrightarrow> frame n h0 (upN h j)"
proof (induction h j rule: upN.induct)
  case (1 h j)
  show ?case
  proof (cases "0 < j \<and> lessV h (vals h ! j) (vals h ! ((j - 1) div 2))")
    case False
    then have "upN h j = h" by (subst upN.simps) (simp only: if_False)
    then show ?thesis using "1.prems" by simp
  next
    case True
    then have pj: "(j - 1) div 2 < j" by arith
    have u: "upN h j = upN (swp h ((j - 1) div 2) j) ((j - 1) div 2)"
      using True by (subst upN.simps) simp
    have "frame n h0 (swp h ((j - 1) div 2) j)"
      using "1.prems" pj by (intro frame_swp) auto
    then show ?thesis using "1.IH"[OF True] "1.prems" pj u by simp
  qed
qed

lemma downN_unfold:
  "downN h i n =
     (if 2 * i + 1 \<ge> n then (h, i)
      else (let j = (if 2 * i + 2 < n \<and> lessV h (vals h ! (2 * i + 2)) (vals h ! (2 * i + 1))
                     then 2 * i + 2 else 2 * i + 1)
            in if lessV h (vals h ! j) (vals h ! i) then downN (swp h i j) j n else (h, i)))"
  by (subst downN.simps) (simp add: Let_def)

lemma downN_frame:
  "frame n h0 h \<Longrightarrow> m \<le> n \<Longrightarrow> n \<le> length (items h) \<Longrightarrow> frame n h0 (fst (downN h i m))"
proof (induction h i m rule: downN.induct)
  case (1 h i m)
  define j where "j = (if 2 * i + 2 < m \<and> lessV h (vals h ! (2 * i + 2)) (vals h ! (2 * i + 1))
                     then 2 * i + 2 else 2 * i + 1)"
  show ?case
  proof (cases "2 * i + 1 < m \<and> lessV h (vals h ! j) (vals h ! i)")
    case False
    then have "downN h i m = (h, i)" by (subst downN_unfold) (auto simp: j_def Let_def)
    then show ?thesis using "1.prems" by simp
  next
    case True
    then have jm: "j < m" "i < m" by (auto simp: j_def)
    have u: "downN h i m = downN (swp h i j) j m"
      using True by (subst downN_unfold) (auto simp: j_def Let_def)
    have "frame n h0 (swp h i j)"
      using "1.prems" jm by (intro frame_swp) auto
    moreover have "\<not> m \<le> 2 * i + 1" using True by simp
    moreover have "j = (if 2 * i + 1 + 1 < m \<and> lessV h (vals h ! (2 * i + 1 + 1)) (vals h ! (2 * i + 1))
                        then 2 * i + 1 + 1 else 2 * i + 1)" by (simp add: j_def)
    ultimately show ?thesis using "1.IH"[of "2 * i + 1" j] "1.prems" True u by simp
  qed
qed

lemma frame_lessV: "frame n h0 h \<Longrightarrow> lessV h = lessV h0"
  by (rule ext)+ (simp add: lessV_def frame_def)

lemma frame_vals_mset:
  assumes "frame n h0 h"
  shows "mset (vals h) = mset (vals h0)"
proof -
  have v: "\<And>g. vals g = map (\<lambda>a. Value (mem g ! a)) (take n (items g)) @ map (\<lambda>a. Value (mem g ! a)) (drop n (items g))"
    unfolding vals_def by (metis append_take_drop_id map_append)
  have e: "(\<lambda>a. Value (mem h ! a)) = (\<lambda>a. Value (mem h0 ! a))"
    using assms by (auto simp: frame_def)
  show ?thesis
    using assms unfolding v[of h] v[of h0] e by (simp add: frame_def)
qed

lemma frame_vals_drop:
  assumes "frame n h0 h" "n \<le> k" "k < length (items h0)"
  shows "vals h ! k = vals h0 ! k" "items h ! k = items h0 ! k"
proof -
  have l: "length (items h) = length (items h0)" and d: "drop n (items h) = drop n (items h0)"
    using assms by (simp_all add: frame_def)
  have "items h ! k = drop n (items h) ! (k - n)" using assms l by simp
  also have "\<dots> = drop n (items h0) ! (k - n)" using d by simp
  also have "\<dots> = items h0 ! k" using assms by simp
  finally show i: "items h ! k = items h0 ! k" .
  show "vals h ! k = vals h0 ! k" using assms i by (simp add: vals_def frame_def)
qed

section \<open>Priority queue: the loops restore the heap property\<close>

lemma upN_heap:
  "ord_ok (lessV h) \<Longrightarrow> j < n \<Longrightarrow> n \<le> length (items h) \<Longrightarrow> up_pre (lessV h) (vals h) j n
   \<Longrightarrow> heap_upto (lessV h) (vals (upN h j)) n"
proof (induction h j rule: upN.induct)
  case (1 h j)
  let ?p = "(j - 1) div 2"
  show ?case
  proof (cases "0 < j \<and> lessV h (vals h ! j) (vals h ! ?p)")
    case False
    then have "upN h j = h" by (subst upN.simps) (simp only: if_False)
    moreover have "heap_upto (lessV h) (vals h) n"
      using "1.prems" False by (intro up_pre_stop[of _ _ j]) auto
    ultimately show ?thesis by simp
  next
    case True
    then have pj: "?p < j" by arith
    have u: "upN h j = upN (swp h ?p j) ?p"
      using True by (subst upN.simps) simp
    have v: "vals (swp h ?p j) = (vals h)[?p := vals h ! j, j := vals h ! ?p]"
      using "1.prems" pj by (intro vals_swp) auto
    have "up_pre (lessV h) ((vals h)[?p := vals h ! j, j := vals h ! ?p]) ?p n"
      using "1.prems" True by (intro up_pre_step) auto
    then have "heap_upto (lessV (swp h ?p j)) (vals (upN (swp h ?p j) ?p)) n"
      using "1.IH"[OF True] "1.prems" pj v by simp
    then show ?thesis using u by simp
  qed
qed

lemma child_cases: "0 < k \<and> (k - 1) div 2 = i \<longleftrightarrow> k = 2 * i + 1 \<or> k = 2 * i + (2::nat)"
  by arith

lemma down_choice:
  fixes lt :: "'a \<Rightarrow> 'a \<Rightarrow> bool" and xs :: "'a list" and i n :: nat
  defines "j \<equiv> (if 2 * i + 2 < n \<and> lt (xs ! (2 * i + 2)) (xs ! (2 * i + 1)) then 2 * i + 2 else 2 * i + 1)"
  assumes o: "ord_ok lt" and c: "2 * i + 1 < n"
  shows "0 < j" "j < n" "(j - 1) div 2 = i"
    "\<And>k. 0 < k \<Longrightarrow> k < n \<Longrightarrow> (k - 1) div 2 = i \<Longrightarrow> \<not> lt (xs ! k) (xs ! j)"
proof -
  have asym: "\<And>x y. lt x y \<Longrightarrow> \<not> lt y x" using o unfolding ord_ok_def by blast
  have irr: "\<And>x. \<not> lt x x" using asym by blast
  show "0 < j" "j < n" "(j - 1) div 2 = i" using c by (auto simp: j_def)
  fix k assume k: "0 < k" "k < n" "(k - 1) div 2 = i"
  then have kk: "k = 2 * i + 1 \<or> k = 2 * i + 2" using child_cases[of k i] by blast
  show "\<not> lt (xs ! k) (xs ! j)"
  proof (cases "2 * i + 2 < n \<and> lt (xs ! (2 * i + 2)) (xs ! (2 * i + 1))")
    case True
    then have "j = 2 * i + 2" by (simp add: j_def)
    with kk True asym[of "xs ! (2 * i + 2)" "xs ! (2 * i + 1)"] irr show ?thesis by auto
  next
    case False
    then have "j = 2 * i + 1" by (simp add: j_def)
    with kk False k irr show ?thesis by auto
  qed
qed

lemma downN_heap:
  "ord_ok (lessV h) \<Longrightarrow> n \<le> length (items h) \<Longrightarrow> down_pre (lessV h) (vals h) i n
   \<Longrightarrow> heap_upto (lessV h) (vals (fst (downN h i n))) n"
proof (induction h i n rule: downN.induct)
  case (1 h i n)
  define j where "j = (if 2 * i + 2 < n \<and> lessV h (vals h ! (2 * i + 2)) (vals h ! (2 * i + 1))
                     then 2 * i + 2 else 2 * i + 1)"
  have tr: "\<And>x y z. \<not> lessV h y x \<Longrightarrow> \<not> lessV h z y \<Longrightarrow> \<not> lessV h z x"
    using "1.prems" unfolding ord_ok_def by blast
  show ?case
  proof (cases "2 * i + 1 < n")
    case False
    then have "downN h i n = (h, i)" by (subst downN_unfold) simp
    moreover have "heap_upto (lessV h) (vals h) n"
    proof (rule down_pre_stop[of _ _ i])
      show "down_pre (lessV h) (vals h) i n" by fact
      show "\<forall>k. 0 < k \<and> k < n \<and> (k - 1) div 2 = i \<longrightarrow> \<not> lessV h (vals h ! k) (vals h ! i)"
      proof (intro allI impI)
        fix k assume "0 < k \<and> k < n \<and> (k - 1) div 2 = i"
        then have "2 * i + 1 < n" by arith
        with False show "\<not> lessV h (vals h ! k) (vals h ! i)" by simp
      qed
    qed
    ultimately show ?thesis by simp
  next
    case c: True
    note ch = down_choice[where xs = "vals h", OF "1.prems"(1) c, folded j_def]
    show ?thesis
    proof (cases "lessV h (vals h ! j) (vals h ! i)")
      case False
      then have "downN h i n = (h, i)" using c by (subst downN_unfold) (simp add: j_def Let_def)
      moreover have "heap_upto (lessV h) (vals h) n"
      proof (rule down_pre_stop[of _ _ i])
        show "down_pre (lessV h) (vals h) i n" by fact
        show "\<forall>k. 0 < k \<and> k < n \<and> (k - 1) div 2 = i \<longrightarrow> \<not> lessV h (vals h ! k) (vals h ! i)"
        proof (intro allI impI)
          fix k assume k: "0 < k \<and> k < n \<and> (k - 1) div 2 = i"
          then have "\<not> lessV h (vals h ! k) (vals h ! j)" using ch(4)[of k] by simp
          from tr[OF False this] show "\<not> lessV h (vals h ! k) (vals h ! i)" .
        qed
      qed
      ultimately show ?thesis by simp
    next
      case True
      have u: "downN h i n = downN (swp h i j) j n"
        using True c by (subst downN_unfold) (simp add: j_def Let_def)
      have il: "i < length (items h)" "j < length (items h)" using ch c "1.prems" by auto
      have v: "vals (swp h i j) = (vals h)[i := vals h ! j, j := vals h ! i]"
        using il by (intro vals_swp)
      have "down_pre (lessV h) ((vals h)[i := vals h ! j, j := vals h ! i]) j n"
        using "1.prems" True ch by (intro down_pre_step) auto
      moreover have "\<not> n \<le> 2 * i + 1" using c by simp
      moreover have "j = (if 2 * i + 1 + 1 < n \<and> lessV h (vals h ! (2 * i + 1 + 1)) (vals h ! (2 * i + 1))
                        then 2 * i + 1 + 1 else 2 * i + 1)" by (simp add: j_def)
      ultimately have "heap_upto (lessV (swp h i j)) (vals (fst (downN (swp h i j) j n))) n"
        using "1.IH"[of "2 * i + 1" j] "1.prems" True v by simp
      then show ?thesis using u by simp
    qed
  qed
qed

lemma downN_ge: "i \<le> snd (downN h i n)"
proof (induction h i n rule: downN.induct)
  case (1 h i n)
  define j where "j = (if 2 * i + 2 < n \<and> lessV h (vals h ! (2 * i + 2)) (vals h ! (2 * i + 1))
                     then 2 * i + 2 else 2 * i + 1)"
  show ?case
  proof (cases "2 * i + 1 < n \<and> lessV h (vals h ! j) (vals h ! i)")
    case False
    then have "downN h i n = (h, i)" by (subst downN_unfold) (auto simp: j_def Let_def)
    then show ?thesis by simp
  next
    case True
    have u: "downN h i n = downN (swp h i j) j n"
      using True by (subst downN_unfold) (auto simp: j_def Let_def)
    have "\<not> n \<le> 2 * i + 1" using True by simp
    moreover have "j = (if 2 * i + 1 + 1 < n \<and> lessV h (vals h ! (2 * i + 1 + 1)) (vals h ! (2 * i + 1))
                        then 2 * i + 1 + 1 else 2 * i + 1)" by (simp add: j_def)
    ultimately have "j \<le> snd (downN (swp h i j) j n)"
      using "1.IH"[of "2 * i + 1" j] True by simp
    moreover have "i < j" by (simp add: j_def)
    ultimately show ?thesis using u by simp
  qed
qed

lemma downN_stay_iff:
  assumes o: "ord_ok (lessV h)"
  shows "snd (downN h i n) = i \<longleftrightarrow>
         (\<forall>k. 0 < k \<and> k < n \<and> (k - 1) div 2 = i \<longrightarrow> \<not> lessV h (vals h ! k) (vals h ! i))"
proof -
  define j where "j = (if 2 * i + 2 < n \<and> lessV h (vals h ! (2 * i + 2)) (vals h ! (2 * i + 1))
                     then 2 * i + 2 else 2 * i + 1)"
  have tr: "\<And>x y z. \<not> lessV h y x \<Longrightarrow> \<not> lessV h z y \<Longrightarrow> \<not> lessV h z x"
    using o unfolding ord_ok_def by blast
  show ?thesis
  proof (cases "2 * i + 1 < n")
    case False
    then have d: "downN h i n = (h, i)" by (subst downN_unfold) simp
    have "\<not> lessV h (vals h ! k) (vals h ! i)" if "0 < k \<and> k < n \<and> (k - 1) div 2 = i" for k
    proof -
      from that have "2 * i + 1 < n" by arith
      with False show ?thesis by simp
    qed
    then show ?thesis using d by simp
  next
    case c: True
    note ch = down_choice[where xs = "vals h", OF o c, folded j_def]
    show ?thesis
    proof (cases "lessV h (vals h ! j) (vals h ! i)")
      case False
      then have d: "downN h i n = (h, i)" using c by (subst downN_unfold) (simp add: j_def Let_def)
      have "\<not> lessV h (vals h ! k) (vals h ! i)" if k: "0 < k \<and> k < n \<and> (k - 1) div 2 = i" for k
      proof -
        from k have "\<not> lessV h (vals h ! k) (vals h ! j)" using ch(4)[of k] by simp
        from tr[OF False this] show ?thesis .
      qed
      then show ?thesis using d by simp
    next
      case True
      have u: "downN h i n = downN (swp h i j) j n"
        using True c by (subst downN_unfold) (simp add: j_def Let_def)
      have "i < j" by (simp add: j_def)
      then have ne: "snd (downN h i n) \<noteq> i" using downN_ge[of j "swp h i j" n] u by simp
      have "0 < j \<and> j < n \<and> (j - 1) div 2 = i" using ch(1,2,3) by simp
      with True have "\<not> (\<forall>k. 0 < k \<and> k < n \<and> (k - 1) div 2 = i \<longrightarrow> \<not> lessV h (vals h ! k) (vals h ! i))"
        by blast
      with ne show ?thesis by simp
    qed
  qed
qed

lemma downN_stay_same: "snd (downN h i n) = i \<Longrightarrow> fst (downN h i n) = h"
proof -
  assume s: "snd (downN h i n) = i"
  define j where "j = (if 2 * i + 2 < n \<and> lessV h (vals h ! (2 * i + 2)) (vals h ! (2 * i + 1))
                     then 2 * i + 2 else 2 * i + 1)"
  show ?thesis
  proof (cases "2 * i + 1 < n \<and> lessV h (vals h ! j) (vals h ! i)")
    case False
    then have "downN h i n = (h, i)" by (subst downN_unfold) (auto simp: j_def Let_def)
    then show ?thesis by simp
  next
    case True
    have u: "downN h i n = downN (swp h i j) j n"
      using True by (subst downN_unfold) (auto simp: j_def Let_def)
    have "i < j" by (simp add: j_def)
    then have "snd (downN h i n) \<noteq> i" using downN_ge[of j "swp h i j" n] u by simp
    with s show ?thesis by simp
  qed
qed

lemma fixN_heap:
  assumes o: "ord_ok (lessV h)" and i: "i < n" and n: "n \<le> length (items h)"
    and pre: "fix_pre (lessV h) (vals h) i n"
  shows "heap_upto (lessV h) (vals (fixN h i n)) n"
proof -
  let ?lt = "lessV h" and ?xs = "vals h" and ?p = "(i - 1) div 2"
  have asym: "\<And>x y. ?lt x y \<Longrightarrow> \<not> ?lt y x"
    and tr: "\<And>x y z. \<not> ?lt y x \<Longrightarrow> \<not> ?lt z y \<Longrightarrow> \<not> ?lt z x"
    using o unfolding ord_ok_def by blast+
  have e: "\<And>k. 0 < k \<Longrightarrow> k < n \<Longrightarrow> k \<noteq> i \<Longrightarrow> (k - 1) div 2 \<noteq> i \<Longrightarrow> \<not> ?lt (?xs ! k) (?xs ! ((k - 1) div 2))"
    and g: "\<And>k. 0 < k \<Longrightarrow> k < n \<Longrightarrow> (k - 1) div 2 = i \<Longrightarrow> 0 < i \<Longrightarrow> \<not> ?lt (?xs ! k) (?xs ! ?p)"
    using pre unfolding fix_pre_def by blast+
  show ?thesis
  proof (cases "0 < i \<and> ?lt (?xs ! i) (?xs ! ?p)")
    case True
    have ch: "\<not> ?lt (?xs ! k) (?xs ! i)" if "0 < k" "k < n" "(k - 1) div 2 = i" for k
    proof -
      have np: "\<not> ?lt (?xs ! ?p) (?xs ! i)" using asym True by auto
      have nk: "\<not> ?lt (?xs ! k) (?xs ! ?p)" using g[of k] that True by auto
      from tr[OF np nk] show ?thesis .
    qed
    then have st: "snd (downN h i n) = i" using downN_stay_iff[OF o, of i n] by blast
    then have same: "fst (downN h i n) = h" by (rule downN_stay_same)
    have "up_pre ?lt ?xs i n"
      unfolding up_pre_def
    proof (intro conjI allI impI)
      fix k assume k: "0 < k \<and> k < n \<and> k \<noteq> i"
      show "\<not> ?lt (?xs ! k) (?xs ! ((k - 1) div 2))"
        using k e[of k] ch[of k] by (cases "(k - 1) div 2 = i") auto
    next
      fix k assume "0 < k \<and> k < n \<and> (k - 1) div 2 = i \<and> 0 < i"
      then show "\<not> ?lt (?xs ! k) (?xs ! ((i - 1) div 2))" using g[of k] by auto
    qed
    then have "heap_upto ?lt (vals (upN h i)) n" using o i n by (intro upN_heap)
    then show ?thesis using st same by (simp add: fixN_def)
  next
    case False
    have "down_pre ?lt ?xs i n"
      unfolding down_pre_def
    proof (intro conjI allI impI)
      fix k assume k: "0 < k \<and> k < n \<and> (k - 1) div 2 \<noteq> i"
      show "\<not> ?lt (?xs ! k) (?xs ! ((k - 1) div 2))"
        using k e[of k] False by (cases "k = i") auto
    next
      fix k assume "0 < k \<and> k < n \<and> (k - 1) div 2 = i \<and> 0 < i"
      then show "\<not> ?lt (?xs ! k) (?xs ! ((i - 1) div 2))" using g[of k] by auto
    qed
    then have hd: "heap_upto ?lt (vals (fst (downN h i n))) n" using o n by (intro downN_heap)
    show ?thesis
    proof (cases "snd (downN h i n) > i")
      case True
      then show ?thesis using hd by (simp add: fixN_def)
    next
      case nm: False
      then have st: "snd (downN h i n) = i" using downN_ge[of i h n] by simp
      then have same: "fst (downN h i n) = h" by (rule downN_stay_same)
      have "upN h i = h" using False by (subst upN.simps) (simp only: if_False)
      then show ?thesis using hd st same by (simp add: fixN_def)
    qed
  qed
qed

lemma fixN_frame:
  "frame n h0 h \<Longrightarrow> i < n \<Longrightarrow> m \<le> n \<Longrightarrow> n \<le> length (items h) \<Longrightarrow> frame n h0 (fixN h i m)"
proof -
  assume a: "frame n h0 h" "i < n" "m \<le> n" "n \<le> length (items h)"
  then have f: "frame n h0 (fst (downN h i m))" by (intro downN_frame)
  then have "length (items (fst (downN h i m))) = length (items h)" using a by (simp add: frame_def)
  then have "frame n h0 (upN (fst (downN h i m)) i)" using f a by (intro upN_frame) auto
  with f show ?thesis by (simp add: fixN_def)
qed

section \<open>Priority queue: the operations on well-formed states\<close>

lemma frame_wf: "frame n h0 h \<Longrightarrow> wf_pq h0 \<Longrightarrow> wf_pq h"
  by (simp add: frame_def)

lemma frame_idx: "frame n h0 h \<Longrightarrow> wf_pq h0 \<Longrightarrow> idx_ok h0 \<Longrightarrow> idx_ok h"
  by (simp add: frame_def)

lemma frame_len: "frame n h0 h \<Longrightarrow> length (items h) = length (items h0)"
  by (simp add: frame_def)

lemma down_nat:
  assumes "wf_pq h" "n \<le> length (items h)"
  shows "down h (int i) (int n) = Inr (fst (downN h i n), i < snd (downN h i n))"
  using down_refine[OF assms, of i] by (simp add: down_def)

lemma Fix_nat:
  assumes w: "wf_pq h" and i: "i < length (items h)"
  shows "Fix h (int i) = Inr (fixN h i (length (items h)))"
proof -
  let ?n = "length (items h)"
  let ?h1 = "fst (downN h i ?n)"
  have d: "down h (int i) (int ?n) = Inr (?h1, i < snd (downN h i ?n))"
    using w by (intro down_nat) auto
  have f: "frame ?n h ?h1" by (intro downN_frame frame_refl) auto
  have w1: "wf_pq ?h1" using f w by (rule frame_wf)
  have l1: "i < length (items ?h1)" using f i by (simp add: frame_len)
  have u: "up ?h1 (int i) = Inr (upN ?h1 i)" using w1 l1 by (rule up_refine)
  show ?thesis using d u by (simp add: Fix_def Len_def fixN_def)
qed

lemma heap_Pop_nat:
  assumes w: "wf_pq h" and ne: "items h \<noteq> []"
  shows "heap_Pop h = Inr (popN h)"
proof -
  let ?n = "length (items h) - 1"
  have n: "?n < length (items h)" using ne by simp
  have i: "int (length (items h)) - 1 = int ?n" using ne by (simp add: of_nat_diff Suc_leI)
  have a: "item_at h (int ?n) = Inr (items h ! ?n)" using n by (rule item_at_nat)
  have "items h ! ?n \<in> set (items h)" using n by simp
  then have b: "items h ! ?n < length (mem h)" using w by (simp add: wf_pq_def)
  show ?thesis using a b by (simp add: heap_Pop_def Len_def i set_Index_def popN_def Let_def)
qed

lemma Push_nat:
  assumes w: "wf_pq h"
  shows "Push v h = Inr (upN (pushN v h) (length (items h)))"
    and "wf_pq (pushN v h)"
    and "vals (pushN v h) = vals h @ [v]"
    and "idx_ok h \<Longrightarrow> idx_ok (pushN v h)"
proof -
  let ?a = "length (mem h)"
  have bd: "\<And>a. a \<in> set (items h) \<Longrightarrow> a < ?a" using w by (simp add: wf_pq_def)
  then have fresh: "?a \<notin> set (items h)" by auto
  show w': "wf_pq (pushN v h)"
    using w fresh bd by (auto simp: wf_pq_def pushN_def less_Suc_eq)
  have hp: "heap_Push (h\<lparr>mem := mem h @ [\<lparr>Value = v, Index = 0\<rparr>]\<rparr>) ?a = Inr (pushN v h)"
    by (simp add: heap_Push_def set_Index_def pushN_def)
  have "up (pushN v h) (int (length (items h))) = Inr (upN (pushN v h) (length (items h)))"
    using w' by (intro up_refine) (simp_all add: pushN_def)
  moreover have "Len (pushN v h) - 1 = int (length (items h))" by (simp add: Len_def pushN_def)
  ultimately show "Push v h = Inr (upN (pushN v h) (length (items h)))"
    using hp by (simp add: Push_def NewItem_def Push_h_def)
  have "map (\<lambda>a. Value ((mem h @ [\<lparr>Value = v, Index = int (length (items h))\<rparr>]) ! a)) (items h)
        = map (\<lambda>a. Value (mem h ! a)) (items h)"
    using bd by (simp add: nth_append)
  then show "vals (pushN v h) = vals h @ [v]"
    by (simp add: vals_def pushN_def)
  show "idx_ok (pushN v h)" if ix: "idx_ok h"
    unfolding idx_ok_def
  proof (intro allI impI)
    fix i assume "i < length (items (pushN v h))"
    then have "i < length (items h) \<or> i = length (items h)" by (auto simp: pushN_def)
    then show "Index (mem (pushN v h) ! (items (pushN v h) ! i)) = int i"
    proof
      assume i: "i < length (items h)"
      then have "items h ! i < ?a" using bd by simp
      then show ?thesis using i ix by (simp add: pushN_def nth_append idx_ok_def)
    next
      assume "i = length (items h)"
      then show ?thesis by (simp add: pushN_def nth_append)
    qed
  qed
qed

lemma popN_props:
  assumes w: "wf_pq h" and ne: "items h \<noteq> []"
  shows "wf_pq (snd (popN h))"
    and "fst (popN h) = last (items h)"
    and "items (snd (popN h)) = butlast (items h)"
    and "vals (snd (popN h)) = butlast (vals h)"
    and "Index (mem (snd (popN h)) ! fst (popN h)) = - 1"
    and "fst (popN h) \<notin> set (items (snd (popN h)))"
    and "idx_ok h \<Longrightarrow> idx_ok (snd (popN h))"
    and "compare (snd (popN h)) = compare h" "isMaxHeap (snd (popN h)) = isMaxHeap h"
    and "Value (mem (snd (popN h)) ! a) = Value (mem h ! a)"
proof -
  let ?n = "length (items h) - 1"
  let ?a = "items h ! ?n"
  have n: "?n < length (items h)" using ne by simp
  have la: "?a = last (items h)" using ne by (simp add: last_conv_nth)
  have tk: "take ?n (items h) = butlast (items h)" by (simp add: butlast_conv_take)
  have d: "distinct (items h)" and bd: "\<And>a. a \<in> set (items h) \<Longrightarrow> a < length (mem h)"
    using w by (simp_all add: wf_pq_def)
  have ab: "?a < length (mem h)" using bd n by simp
  have nin: "?a \<notin> set (butlast (items h))"
    using d ne la by (metis append_butlast_last_id distinct_append disjoint_iff list.set_intros(1) set_append Un_iff distinct.simps(2) not_distinct_conv_prefix)
  show "fst (popN h) = last (items h)" using la by (simp add: popN_def Let_def)
  show it: "items (snd (popN h)) = butlast (items h)" using tk by (simp add: popN_def Let_def)
  have mm: "length (mem (snd (popN h))) = length (mem h)" by (simp add: popN_def Let_def)
  show "wf_pq (snd (popN h))"
    unfolding wf_pq_def it mm using d bd by (auto simp: distinct_butlast dest: in_set_butlastD)
  show "Value (mem (snd (popN h)) ! a) = Value (mem h ! a)"
    by (simp add: popN_def Let_def)
  then have "\<And>a. Value (mem (snd (popN h)) ! a) = Value (mem h ! a)" by (simp add: popN_def Let_def)
  then show "vals (snd (popN h)) = butlast (vals h)"
    unfolding vals_def it by (simp add: map_butlast)
  show "Index (mem (snd (popN h)) ! fst (popN h)) = - 1"
    using ab by (simp add: popN_def Let_def)
  show "fst (popN h) \<notin> set (items (snd (popN h)))"
    unfolding it using nin by (simp add: popN_def Let_def)
  show "compare (snd (popN h)) = compare h" "isMaxHeap (snd (popN h)) = isMaxHeap h"
    by (simp_all add: popN_def Let_def)
  show "idx_ok (snd (popN h))" if ix: "idx_ok h"
    unfolding idx_ok_def it
  proof (intro allI impI)
    fix i assume i: "i < length (butlast (items h))"
    then have il: "i < length (items h)" by simp
    have e: "butlast (items h) ! i = items h ! i" using i by (simp add: nth_butlast)
    have "items h ! i \<in> set (butlast (items h))" using i e by (metis nth_mem)
    then have "items h ! i \<noteq> ?a" using nin by auto
    then have "mem (snd (popN h)) ! (items h ! i) = mem h ! (items h ! i)"
      by (simp add: popN_def Let_def)
    then show "Index (mem (snd (popN h)) ! (butlast (items h) ! i)) = int i"
      using e ix il by (simp add: idx_ok_def)
  qed
qed

section \<open>Priority queue: the operations keep the invariants\<close>

lemma comparator_ord_ok:
  assumes "comparator_ok (compare h)"
  shows "ord_ok (lessV h)"
proof -
  define c where "c = (\<lambda>a b. sint (compare h a b))"
  have s: "(c a b < 0) = (0 < c b a)" for a b
    using assms unfolding comparator_ok_def c_def word_sless_alt by simp
  have t: "c a b \<le> 0 \<Longrightarrow> c b d \<le> 0 \<Longrightarrow> c a d \<le> 0" for a b d
    using assms unfolding comparator_ok_def c_def word_sle_eq by simp
  have asym: "c x y < 0 \<Longrightarrow> \<not> c y x < 0" for x y
    using s[of x y] by simp
  have tr: "\<not> c z x < 0" if 1: "\<not> c y x < 0" and 2: "\<not> c z y < 0" for x y z
  proof -
    from 1 s[of y x] have "c x y \<le> 0" by simp
    moreover from 2 s[of z y] have "c y z \<le> 0" by simp
    ultimately have "c x z \<le> 0" by (rule t)
    with s[of z x] show ?thesis by simp
  qed
  have mn: "lessV h x y = (c x y < 0)" if "\<not> isMaxHeap h" for x y
    using that by (simp add: lessV_def c_def word_sless_alt)
  have mx: "lessV h x y = (c y x < 0)" if "isMaxHeap h" for x y
    using that s[of y x] by (simp add: lessV_def c_def word_sless_alt)
  show ?thesis
  proof (cases "isMaxHeap h")
    case False
    show ?thesis unfolding ord_ok_def
    proof (intro conjI allI impI)
      fix x y assume "lessV h x y" then show "\<not> lessV h y x" using mn[OF False] asym by simp
    next
      fix x y z assume "\<not> lessV h y x" "\<not> lessV h z y"
      then show "\<not> lessV h z x" using mn[OF False] tr[of y x z] by simp
    qed
  next
    case True
    show ?thesis unfolding ord_ok_def
    proof (intro conjI allI impI)
      fix x y assume "lessV h x y" then show "\<not> lessV h y x" using mx[OF True] asym by simp
    next
      fix x y z assume "\<not> lessV h y x" "\<not> lessV h z y"
      then show "\<not> lessV h z x" using mx[OF True] tr[of y z x] by simp
    qed
  qed
qed

lemma heap_fix_pre:
  assumes o: "ord_ok lt" and h: "heap_upto lt xs n"
    and same: "\<And>k. k < n \<Longrightarrow> k \<noteq> i \<Longrightarrow> ys ! k = xs ! k"
  shows "fix_pre lt ys i n"
  unfolding fix_pre_def
proof (intro conjI allI impI)
  fix k assume k: "0 < k \<and> k < n \<and> k \<noteq> i \<and> (k - 1) div 2 \<noteq> i"
  then have p: "(k - 1) div 2 < n" by arith
  have "\<not> lt (xs ! k) (xs ! ((k - 1) div 2))" using h k unfolding heap_upto_def by blast
  then show "\<not> lt (ys ! k) (ys ! ((k - 1) div 2))" using same[of k] same[of "(k - 1) div 2"] k p by simp
next
  fix k assume k: "0 < k \<and> k < n \<and> (k - 1) div 2 = i \<and> 0 < i"
  have tr: "\<And>x y z. \<not> lt y x \<Longrightarrow> \<not> lt z y \<Longrightarrow> \<not> lt z x" using o unfolding ord_ok_def by blast
  from k have ik: "i < k" "i < n" "k \<noteq> i" by arith+
  from k have pi: "(i - 1) div 2 < i" by arith
  have 1: "\<not> lt (xs ! k) (xs ! i)" using h k unfolding heap_upto_def by blast
  have 2: "\<not> lt (xs ! i) (xs ! ((i - 1) div 2))" using h k ik unfolding heap_upto_def by blast
  from tr[OF 2 1] have "\<not> lt (xs ! k) (xs ! ((i - 1) div 2))" .
  moreover have "ys ! k = xs ! k" using same[of k] k ik by simp
  moreover have "ys ! ((i - 1) div 2) = xs ! ((i - 1) div 2)" using same[of "(i - 1) div 2"] pi ik by simp
  ultimately show "\<not> lt (ys ! k) (ys ! ((i - 1) div 2))" by simp
qed

lemma fix_pre_down0: "fix_pre lt ys 0 n \<Longrightarrow> down_pre lt ys 0 n"
  unfolding fix_pre_def down_pre_def by auto

lemma heap_upto_mono: "heap_upto lt xs n \<Longrightarrow> m \<le> n \<Longrightarrow> heap_upto lt xs m"
  unfolding heap_upto_def by auto

lemma heap_upto_cong:
  "heap_upto lt xs n \<Longrightarrow> (\<And>k. k < n \<Longrightarrow> ys ! k = xs ! k) \<Longrightarrow> heap_upto lt ys n"
  unfolding heap_upto_def
proof (intro allI impI)
  fix k assume a: "\<forall>k. 0 < k \<and> k < n \<longrightarrow> \<not> lt (xs ! k) (xs ! ((k - 1) div 2))"
    and s: "\<And>k. k < n \<Longrightarrow> ys ! k = xs ! k" and k: "0 < k \<and> k < n"
  then have "(k - 1) div 2 < n" by arith
  then show "\<not> lt (ys ! k) (ys ! ((k - 1) div 2))" using a s k by simp
qed

lemma heap_push_up_pre:
  assumes "heap_upto lt xs (length xs)"
  shows "up_pre lt (xs @ [v]) (length xs) (Suc (length xs))"
  unfolding up_pre_def
proof (intro conjI allI impI)
  fix k assume k: "0 < k \<and> k < Suc (length xs) \<and> k \<noteq> length xs"
  then have kl: "k < length xs" and "(k - 1) div 2 < length xs" by arith+
  then show "\<not> lt ((xs @ [v]) ! k) ((xs @ [v]) ! ((k - 1) div 2))"
    using assms k unfolding heap_upto_def by (simp add: nth_append)
next
  fix k assume "0 < k \<and> k < Suc (length xs) \<and> (k - 1) div 2 = length xs \<and> 0 < length xs"
  then have False by arith
  then show "\<not> lt ((xs @ [v]) ! k) ((xs @ [v]) ! ((length xs - 1) div 2))" ..
qed

lemma Push_ok:
  assumes w: "wf_pq h" and ix: "idx_ok h"
  shows "\<exists>h'. Push v h = Inr h' \<and> wf_pq h' \<and> idx_ok h' \<and>
           compare h' = compare h \<and> isMaxHeap h' = isMaxHeap h \<and>
           mset (vals h') = mset (vals h) + {#v#} \<and>
           length (items h') = Suc (length (items h)) \<and>
           (ord_ok (lessV h) \<longrightarrow> heap_ok h \<longrightarrow> heap_ok h')"
proof -
  let ?n = "length (items h)"
  let ?hp = "pushN v h"
  let ?h' = "upN ?hp ?n"
  note P = Push_nat[OF w, of v]
  have lp: "length (items ?hp) = Suc ?n" by (simp add: pushN_def)
  have cp: "compare ?hp = compare h" "isMaxHeap ?hp = isMaxHeap h" by (simp_all add: pushN_def)
  have lv: "lessV ?hp = lessV h" by (intro ext) (simp add: lessV_def cp)
  have f: "frame (Suc ?n) ?hp ?h'"
    using lp by (intro upN_frame frame_refl) auto
  have 1: "wf_pq ?h'" using f P(2) by (rule frame_wf)
  have 2: "idx_ok ?h'" using f P(2) P(4)[OF ix] by (rule frame_idx)
  have 3: "compare ?h' = compare h" "isMaxHeap ?h' = isMaxHeap h" using f cp by (simp_all add: frame_def)
  have 4: "mset (vals ?h') = mset (vals h) + {#v#}"
    using frame_vals_mset[OF f] P(3) by simp
  have 5: "length (items ?h') = Suc ?n" using frame_len[OF f] lp by simp
  have 6: "heap_ok ?h'" if o: "ord_ok (lessV h)" and hk: "heap_ok h"
  proof -
    have "up_pre (lessV ?hp) (vals ?hp) ?n (Suc ?n)"
      using heap_push_up_pre[of "lessV h" "vals h" v] hk
      by (simp add: heap_ok_def P(3) lv)
    then have "heap_upto (lessV ?hp) (vals ?h') (Suc ?n)"
      using o lv lp by (intro upN_heap) auto
    then show ?thesis using 5 frame_lessV[OF f] by (simp add: heap_ok_def)
  qed
  show ?thesis using P(1) 1 2 3 4 5 6 by blast
qed

lemma swp_frame_full:
  assumes "i < length (items h)" "j < length (items h)"
  shows "frame (length (items h)) h (swp h i j)"
  using assms by (intro frame_swp frame_refl) auto

lemma mset_butlast_last: "xs \<noteq> [] \<Longrightarrow> mset (butlast xs) + {#last xs#} = mset xs"
proof -
  assume a: "xs \<noteq> []"
  have "mset (butlast xs @ [last xs]) = mset xs" by (subst append_butlast_last_id[OF a]) (rule refl)
  then show ?thesis by simp
qed

lemma Pop_h_ok:
  assumes w: "wf_pq h" and ix: "idx_ok h" and ne: "items h \<noteq> []"
  shows "\<exists>h'. Pop_h h = Inr (items h ! 0, h') \<and> wf_pq h' \<and> idx_ok h' \<and>
           compare h' = compare h \<and> isMaxHeap h' = isMaxHeap h \<and>
           (\<forall>a. Value (mem h' ! a) = Value (mem h ! a)) \<and>
           mset (vals h') + {#vals h ! 0#} = mset (vals h) \<and>
           mset (items h') + {#items h ! 0#} = mset (items h) \<and>
           Suc (length (items h')) = length (items h) \<and>
           Index (mem h' ! (items h ! 0)) = - 1 \<and>
           length (mem h') = length (mem h) \<and>
           (ord_ok (lessV h) \<longrightarrow> heap_ok h \<longrightarrow> heap_ok h')"
proof -
  let ?len = "length (items h)"
  define n where "n = ?len - 1"
  define h1 where "h1 = swp h 0 n"
  define h2 where "h2 = fst (downN h1 0 n)"
  define h3 where "h3 = snd (popN h2)"
  have nl: "n < ?len" "0 < ?len" "Suc n = ?len" using ne by (simp_all add: n_def)
  have ni: "Len h - 1 = int n" using ne by (simp add: Len_def n_def of_nat_diff Suc_leI)
  have f01: "frame ?len h h1" unfolding h1_def using nl by (intro swp_frame_full) auto
  have w1: "wf_pq h1" unfolding h1_def using w nl by (intro swp_wf) auto
  have i1: "idx_ok h1" unfolding h1_def using w ix nl by (intro swp_idx_ok) auto
  have l1: "length (items h1) = ?len" by (simp add: h1_def)
  have f12: "frame n h1 h2" unfolding h2_def using nl l1 by (intro downN_frame frame_refl) auto
  have w2: "wf_pq h2" using f12 w1 by (rule frame_wf)
  have i2: "idx_ok h2" using f12 w1 i1 by (rule frame_idx)
  have l2: "length (items h2) = ?len" using frame_len[OF f12] l1 by simp
  have ne2: "items h2 \<noteq> []" using l2 nl by auto
  have sw: "Swap h 0 (int n) = Inr h1"
    using Swap_nat[OF w nl(2) nl(1)] by (simp add: h1_def)
  have dn: "down h1 0 (int n) = Inr (h2, 0 < snd (downN h1 0 n))"
    using down_nat[OF w1, of n 0] nl l1 by (simp add: h2_def)
  have hp: "heap_Pop h2 = Inr (popN h2)" using w2 ne2 by (rule heap_Pop_nat)
  have run: "Pop_h h = Inr (popN h2)"
    using sw dn hp by (simp add: Pop_h_def ni Let_def)
  note pp = popN_props[OF w2 ne2]
  have a2: "items h2 ! n = items h ! 0"
  proof -
    have "items h2 ! n = items h1 ! n" using frame_vals_drop(2)[OF f12, of n] nl l1 by simp
    then show ?thesis using nl by (simp add: h1_def)
  qed
  have v2: "vals h2 ! n = vals h ! 0"
  proof -
    have "vals h2 ! n = vals h1 ! n" using frame_vals_drop(1)[OF f12, of n] nl l1 by simp
    also have "\<dots> = vals h ! 0" using nl by (simp add: h1_def vals_swp)
    finally show ?thesis .
  qed
  have nev: "vals h2 \<noteq> []" using ne2 by (simp add: vals_def)
  have last2: "last (items h2) = items h ! 0" "last (vals h2) = vals h ! 0"
    using a2 v2 l2 nl ne2 nev by (simp_all add: last_conv_nth n_def)
  have fst_eq: "fst (popN h2) = items h ! 0" using pp(2) last2 by simp
  have r: "Pop_h h = Inr (items h ! 0, h3)"
    using run fst_eq by (simp add: h3_def prod_eq_iff)
  have c3: "compare h3 = compare h" "isMaxHeap h3 = isMaxHeap h"
    using pp(8,9) f12 f01 by (simp_all add: h3_def frame_def)
  have val3: "\<forall>a. Value (mem h3 ! a) = Value (mem h ! a)"
    using pp(10) f12 f01 by (simp add: h3_def frame_def)
  have ms2: "mset (vals h2) = mset (vals h)"
    using frame_vals_mset[OF f12] frame_vals_mset[OF f01] by simp
  have "mset (butlast (vals h2)) + {#last (vals h2)#} = mset (vals h2)"
    using nev by (rule mset_butlast_last)
  then have ms3: "mset (vals h3) + {#vals h ! 0#} = mset (vals h)"
    using pp(4) last2 ms2 by (simp add: h3_def)
  have mi2: "mset (items h2) = mset (items h)"
  proof -
    have "mset (items h2) = mset (take n (items h2)) + mset (drop n (items h2))"
      by (metis append_take_drop_id mset_append)
    also have "\<dots> = mset (take n (items h1)) + mset (drop n (items h1))"
      using f12 by (simp add: frame_def)
    also have "\<dots> = mset (items h1)" by (metis append_take_drop_id mset_append)
    also have "\<dots> = mset (items h)" unfolding h1_def using nl by (simp add: mset_swap)
    finally show ?thesis .
  qed
  have "mset (butlast (items h2)) + {#last (items h2)#} = mset (items h2)"
    using ne2 by (rule mset_butlast_last)
  then have mi3: "mset (items h3) + {#items h ! 0#} = mset (items h)"
    using pp(3) last2 mi2 by (simp add: h3_def)
  have l3: "Suc (length (items h3)) = ?len" using pp(3) l2 nl by (simp add: h3_def)
  have ix3: "Index (mem h3 ! (items h ! 0)) = - 1" using pp(5) fst_eq by (simp add: h3_def)
  have hk3: "heap_ok h3" if o: "ord_ok (lessV h)" and hk: "heap_ok h"
  proof -
    have lv1: "lessV h1 = lessV h" by (simp add: h1_def)
    have "heap_upto (lessV h) (vals h) ?len" using hk by (simp add: heap_ok_def)
    then have hn: "heap_upto (lessV h) (vals h) n"
      by (rule heap_upto_mono) (use nl in simp)
    have "fix_pre (lessV h) (vals h1) 0 n"
    proof (rule heap_fix_pre[OF o hn])
      fix k assume "k < n" "k \<noteq> 0"
      then show "vals h1 ! k = vals h ! k" using nl by (simp add: h1_def vals_swp)
    qed
    then have dp: "down_pre (lessV h1) (vals h1) 0 n" unfolding lv1 by (rule fix_pre_down0)
    have o1: "ord_ok (lessV h1)" unfolding lv1 by (rule o)
    have nl1: "n \<le> length (items h1)" unfolding l1 using nl(1) by simp
    have "heap_upto (lessV h1) (vals (fst (downN h1 0 n))) n"
      using o1 nl1 dp by (rule downN_heap)
    then have h2n: "heap_upto (lessV h) (vals h2) n" unfolding lv1 h2_def .
    have "heap_upto (lessV h) (butlast (vals h2)) n"
    proof (rule heap_upto_cong[OF h2n])
      fix k assume "k < n"
      then have "k < length (butlast (vals h2))" using l2 nl(3) by simp
      then show "butlast (vals h2) ! k = vals h2 ! k" by (rule nth_butlast)
    qed
    moreover have "lessV h3 = lessV h" by (intro ext) (simp add: lessV_def c3)
    moreover have "length (items h3) = n" using l3 nl(3) by simp
    moreover have "vals h3 = butlast (vals h2)" using pp(4) by (simp add: h3_def)
    ultimately show ?thesis by (simp add: heap_ok_def)
  qed
  have lm3: "length (mem h3) = length (mem h)"
    using f12 f01 by (simp add: h3_def popN_def Let_def frame_def)
  have w3: "wf_pq h3" using pp(1) by (simp add: h3_def)
  have i3: "idx_ok h3" using pp(7)[OF i2] by (simp add: h3_def)
  show ?thesis
    by (intro exI[of _ h3] conjI impI; (rule r w3 i3 c3 val3 ms3 mi3 l3 ix3 lm3 | (rule hk3; assumption)))
qed

lemma Remove_h_ok:
  assumes w: "wf_pq h" and ix: "idx_ok h" and il: "i < length (items h)"
  shows "\<exists>h'. Remove_h h (int i) = Inr (items h ! i, h') \<and> wf_pq h' \<and> idx_ok h' \<and>
           compare h' = compare h \<and> isMaxHeap h' = isMaxHeap h \<and>
           (\<forall>a. Value (mem h' ! a) = Value (mem h ! a)) \<and>
           mset (vals h') + {#vals h ! i#} = mset (vals h) \<and>
           mset (items h') + {#items h ! i#} = mset (items h) \<and>
           Suc (length (items h')) = length (items h) \<and>
           Index (mem h' ! (items h ! i)) = - 1 \<and>
           length (mem h') = length (mem h) \<and>
           (ord_ok (lessV h) \<longrightarrow> heap_ok h \<longrightarrow> heap_ok h') \<and>
           (Suc i = length (items h) \<longrightarrow> h' = snd (popN h))"
proof -
  let ?len = "length (items h)"
  define n where "n = ?len - 1"
  define h1 where "h1 = swp h i n"
  define h2 where "h2 = (if i = n then h else fixN h1 i n)"
  define h3 where "h3 = snd (popN h2)"
  have ne: "items h \<noteq> []" using il by auto
  have nl: "n < ?len" "Suc n = ?len" "i \<le> n" using il by (simp_all add: n_def)
  have ni: "Len h - 1 = int n" using ne by (simp add: Len_def n_def of_nat_diff Suc_leI)
  have f01: "frame ?len h h1" unfolding h1_def using nl il by (intro swp_frame_full) auto
  have w1: "wf_pq h1" unfolding h1_def using w nl il by (intro swp_wf) auto
  have i1: "idx_ok h1" unfolding h1_def using w ix nl il by (intro swp_idx_ok) auto
  have l1: "length (items h1) = ?len" by (simp add: h1_def)
  have lv1: "lessV h1 = lessV h" by (simp add: h1_def)
  have run: "Remove_h h (int i) = Inr (popN h2)"
  proof (cases "i = n")
    case True
    have "heap_Pop h = Inr (popN h)" using w ne by (rule heap_Pop_nat)
    then show ?thesis using True by (simp add: Remove_h_def ni Let_def h2_def)
  next
    case False
    then have i_n: "i < n" using nl by simp
    let ?hd = "fst (downN h1 i n)"
    have sw: "Swap h (int i) (int n) = Inr h1"
      using Swap_nat[OF w il nl(1)] by (simp add: h1_def)
    have dn: "down h1 (int i) (int n) = Inr (?hd, i < snd (downN h1 i n))"
      using down_nat[OF w1, of n i] nl l1 by simp
    have fd: "frame n h1 ?hd" using nl l1 by (intro downN_frame frame_refl) auto
    have wd: "wf_pq ?hd" using fd w1 by (rule frame_wf)
    have ld: "i < length (items ?hd)" using frame_len[OF fd] l1 il by simp
    have u: "up ?hd (int i) = Inr (upN ?hd i)" using wd ld by (rule up_refine)
    have fx: "(if \<not> i < snd (downN h1 i n) then up ?hd (int i) else Inr ?hd) = Inr (fixN h1 i n)"
      using u by (simp add: fixN_def)
    have f2: "frame n h1 (fixN h1 i n)" using i_n nl l1 by (intro fixN_frame frame_refl) auto
    have w2: "wf_pq (fixN h1 i n)" using f2 w1 by (rule frame_wf)
    have "length (items (fixN h1 i n)) = ?len" using frame_len[OF f2] l1 by simp
    then have ne2: "items (fixN h1 i n) \<noteq> []" using ne by auto
    have hp: "heap_Pop (fixN h1 i n) = Inr (popN (fixN h1 i n))" using w2 ne2 by (rule heap_Pop_nat)
    have ineq: "int n \<noteq> int i" using False by simp
    show ?thesis
      using False sw dn fx hp ineq by (simp add: Remove_h_def ni Let_def h2_def)
  qed
  have F: "wf_pq h2 \<and> idx_ok h2 \<and> length (items h2) = ?len \<and>
           items h2 ! n = items h ! i \<and> vals h2 ! n = vals h ! i \<and>
           compare h2 = compare h \<and> isMaxHeap h2 = isMaxHeap h \<and>
           (\<forall>a. Value (mem h2 ! a) = Value (mem h ! a)) \<and> length (mem h2) = length (mem h) \<and>
           mset (vals h2) = mset (vals h) \<and> mset (items h2) = mset (items h)"
  proof (cases "i = n")
    case True
    then have "h2 = h" by (simp add: h2_def)
    then show ?thesis using w ix True by simp
  next
    case False
    then have e: "h2 = fixN h1 i n" by (simp add: h2_def)
    have f: "frame n h1 h2" unfolding e using False nl l1 by (intro fixN_frame frame_refl) auto
    have 1: "wf_pq h2" using f w1 by (rule frame_wf)
    have 2: "idx_ok h2" using f w1 i1 by (rule frame_idx)
    have 3: "length (items h2) = ?len" using frame_len[OF f] l1 by simp
    have "items h2 ! n = items h1 ! n" using frame_vals_drop(2)[OF f, of n] nl l1 by simp
    then have 4: "items h2 ! n = items h ! i" using nl il by (simp add: h1_def)
    have "vals h2 ! n = vals h1 ! n" using frame_vals_drop(1)[OF f, of n] nl l1 by simp
    moreover have "vals h1 ! n = vals h ! i" using nl il by (simp add: h1_def vals_swp)
    ultimately have 5: "vals h2 ! n = vals h ! i" by simp
    have 6: "compare h2 = compare h" "isMaxHeap h2 = isMaxHeap h"
      "\<forall>a. Value (mem h2 ! a) = Value (mem h ! a)" "length (mem h2) = length (mem h)"
      using f f01 by (simp_all add: frame_def)
    have 7: "mset (vals h2) = mset (vals h)"
      using frame_vals_mset[OF f] frame_vals_mset[OF f01] by simp
    have mi1: "mset (items h1) = mset (items h)" unfolding h1_def using nl il by (simp add: mset_swap)
    have "mset (items h2) = mset (take n (items h2)) + mset (drop n (items h2))"
      by (metis append_take_drop_id mset_append)
    also have "\<dots> = mset (take n (items h1)) + mset (drop n (items h1))"
      using f by (simp add: frame_def)
    also have "\<dots> = mset (items h1)" by (metis append_take_drop_id mset_append)
    finally have 8: "mset (items h2) = mset (items h)" using mi1 by simp
    show ?thesis using 1 2 3 4 5 6 7 8 by simp
  qed
  then have w2: "wf_pq h2" and i2: "idx_ok h2" and l2: "length (items h2) = ?len"
    and a2: "items h2 ! n = items h ! i" and v2: "vals h2 ! n = vals h ! i"
    and c2: "compare h2 = compare h" "isMaxHeap h2 = isMaxHeap h"
    "\<forall>a. Value (mem h2 ! a) = Value (mem h ! a)" "length (mem h2) = length (mem h)"
    and ms2: "mset (vals h2) = mset (vals h)" and mi2: "mset (items h2) = mset (items h)"
    by simp_all
  have ne2: "items h2 \<noteq> []" using l2 ne by auto
  have nev: "vals h2 \<noteq> []" using ne2 by (simp add: vals_def)
  note pp = popN_props[OF w2 ne2]
  have last2: "last (items h2) = items h ! i" "last (vals h2) = vals h ! i"
    using a2 v2 l2 nl ne2 nev by (simp_all add: last_conv_nth n_def)
  have fst_eq: "fst (popN h2) = items h ! i" using pp(2) last2 by simp
  have r: "Remove_h h (int i) = Inr (items h ! i, h3)"
    using run fst_eq by (simp add: h3_def prod_eq_iff)
  have c3: "compare h3 = compare h" "isMaxHeap h3 = isMaxHeap h"
    using pp(8,9) c2 by (simp_all add: h3_def)
  have val3: "\<forall>a. Value (mem h3 ! a) = Value (mem h ! a)"
    using pp(10) c2 by (simp add: h3_def)
  have lm3: "length (mem h3) = length (mem h)"
    using c2 by (simp add: h3_def popN_def Let_def)
  have "mset (butlast (vals h2)) + {#last (vals h2)#} = mset (vals h2)"
    using nev by (rule mset_butlast_last)
  then have ms3: "mset (vals h3) + {#vals h ! i#} = mset (vals h)"
    using pp(4) last2 ms2 by (simp add: h3_def)
  have "mset (butlast (items h2)) + {#last (items h2)#} = mset (items h2)"
    using ne2 by (rule mset_butlast_last)
  then have mi3: "mset (items h3) + {#items h ! i#} = mset (items h)"
    using pp(3) last2 mi2 by (simp add: h3_def)
  have l3: "Suc (length (items h3)) = ?len" using pp(3) l2 nl by (simp add: h3_def)
  have ix3: "Index (mem h3 ! (items h ! i)) = - 1" using pp(5) fst_eq by (simp add: h3_def)
  have hk3: "heap_ok h3" if o: "ord_ok (lessV h)" and hk: "heap_ok h"
  proof -
    have "heap_upto (lessV h) (vals h) ?len" using hk by (simp add: heap_ok_def)
    then have hn: "heap_upto (lessV h) (vals h) n"
      by (rule heap_upto_mono) (use nl in simp)
    have h2n: "heap_upto (lessV h) (vals h2) n"
    proof (cases "i = n")
      case True
      then show ?thesis using hn by (simp add: h2_def)
    next
      case False
      then have i_n: "i < n" using nl by simp
      have fp: "fix_pre (lessV h) (vals h1) i n"
      proof (rule heap_fix_pre[OF o hn])
        fix k assume "k < n" "k \<noteq> i"
        then show "vals h1 ! k = vals h ! k" using nl il by (simp add: h1_def vals_swp)
      qed
      have o1: "ord_ok (lessV h1)" unfolding lv1 by (rule o)
      have nl1: "n \<le> length (items h1)" unfolding l1 using nl(1) by simp
      have fp1: "fix_pre (lessV h1) (vals h1) i n" unfolding lv1 by (rule fp)
      have "heap_upto (lessV h1) (vals (fixN h1 i n)) n"
        using o1 i_n nl1 fp1 by (rule fixN_heap)
      then show ?thesis using False unfolding lv1 by (simp add: h2_def)
    qed
    have "heap_upto (lessV h) (butlast (vals h2)) n"
    proof (rule heap_upto_cong[OF h2n])
      fix k assume "k < n"
      then have "k < length (butlast (vals h2))" using l2 nl(2) by simp
      then show "butlast (vals h2) ! k = vals h2 ! k" by (rule nth_butlast)
    qed
    moreover have "lessV h3 = lessV h" by (intro ext) (simp add: lessV_def c3)
    moreover have "length (items h3) = n" using l3 nl(2) by simp
    moreover have "vals h3 = butlast (vals h2)" using pp(4) by (simp add: h3_def)
    ultimately show ?thesis by (simp add: heap_ok_def)
  qed
  have w3: "wf_pq h3" using pp(1) by (simp add: h3_def)
  have i3: "idx_ok h3" using pp(7)[OF i2] by (simp add: h3_def)
  have lastcase: "h3 = snd (popN h)" if "Suc i = ?len"
  proof -
    from that nl have "i = n" by simp
    then show ?thesis by (simp add: h3_def h2_def)
  qed
  show ?thesis
    by (intro exI[of _ h3] conjI impI;
        (rule r w3 i3 c3 val3 ms3 mi3 l3 ix3 lm3 | (rule hk3; assumption) | (rule lastcase; assumption)))
qed

lemma set_Value_props:
  assumes w: "wf_pq h" and il: "i < length (items h)" and a: "a = items h ! i"
  shows "wf_pq (set_Value a v h)"
    and "items (set_Value a v h) = items h"
    and "compare (set_Value a v h) = compare h" "isMaxHeap (set_Value a v h) = isMaxHeap h"
    and "length (mem (set_Value a v h)) = length (mem h)"
    and "idx_ok h \<Longrightarrow> idx_ok (set_Value a v h)"
    and "vals (set_Value a v h) = (vals h)[i := v]"
    and "Index (mem (set_Value a v h) ! b) = Index (mem h ! b)"
    and "Value (mem (set_Value a v h) ! a) = v"
    and "b \<noteq> a \<Longrightarrow> mem (set_Value a v h) ! b = mem h ! b"
proof -
  have d: "distinct (items h)" and bd: "\<And>a. a \<in> set (items h) \<Longrightarrow> a < length (mem h)"
    using w by (simp_all add: wf_pq_def)
  have al: "a < length (mem h)" using a il bd by simp
  show "wf_pq (set_Value a v h)" using w by (simp add: wf_pq_def set_Value_def)
  show "items (set_Value a v h) = items h" by (simp add: set_Value_def)
  show "compare (set_Value a v h) = compare h" by (simp add: set_Value_def)
  show "isMaxHeap (set_Value a v h) = isMaxHeap h" by (simp add: set_Value_def)
  show "length (mem (set_Value a v h)) = length (mem h)" by (simp add: set_Value_def)
  have ixg: "Index (mem (set_Value a v h) ! c) = Index (mem h ! c)" for c
    by (cases "c = a"; cases "a < length (mem h)") (simp_all add: set_Value_def list_update_beyond)
  show "Index (mem (set_Value a v h) ! b) = Index (mem h ! b)" by (rule ixg)
  show "idx_ok (set_Value a v h)" if "idx_ok h"
    using that unfolding idx_ok_def ixg by (simp add: set_Value_def)
  show "Value (mem (set_Value a v h) ! a) = v" using al by (simp add: set_Value_def)
  show "mem (set_Value a v h) ! b = mem h ! b" if "b \<noteq> a" using that by (simp add: set_Value_def)
  show "vals (set_Value a v h) = (vals h)[i := v]"
  proof (rule nth_equalityI)
    show "length (vals (set_Value a v h)) = length ((vals h)[i := v])" by (simp add: set_Value_def)
    fix k assume "k < length (vals (set_Value a v h))"
    then have k: "k < length (items h)" by (simp add: set_Value_def)
    show "vals (set_Value a v h) ! k = (vals h)[i := v] ! k"
    proof (cases "k = i")
      case True
      then show ?thesis using k al a by (simp add: vals_def set_Value_def)
    next
      case False
      then have "items h ! k \<noteq> a" using d k il a by (simp add: nth_eq_iff_index_eq)
      then show ?thesis using False k by (simp add: vals_def set_Value_def)
    qed
  qed
qed

lemma UpdateItem_nat:
  assumes w: "wf_pq h" and ix: "idx_ok h" and il: "i < length (items h)"
  shows "UpdateItem (items h ! i) h = Inr (fixN h i (length (items h)))"
proof -
  have "items h ! i \<in> set (items h)" using il by simp
  then have "items h ! i < length (mem h)" using w by (simp add: wf_pq_def)
  moreover have "Index (mem h ! (items h ! i)) = int i" using ix il by (simp add: idx_ok_def)
  ultimately show ?thesis using Fix_nat[OF w il] by (simp add: UpdateItem_def deref_def)
qed

lemma fixN_ok:
  assumes w: "wf_pq h" and il: "i < length (items h)"
  shows "wf_pq (fixN h i (length (items h)))"
    and "idx_ok h \<Longrightarrow> idx_ok (fixN h i (length (items h)))"
    and "compare (fixN h i (length (items h))) = compare h"
    and "isMaxHeap (fixN h i (length (items h))) = isMaxHeap h"
    and "Value (mem (fixN h i (length (items h))) ! a) = Value (mem h ! a)"
    and "mset (items (fixN h i (length (items h)))) = mset (items h)"
    and "length (items (fixN h i (length (items h)))) = length (items h)"
    and "length (mem (fixN h i (length (items h)))) = length (mem h)"
    and "mset (vals (fixN h i (length (items h)))) = mset (vals h)"
proof -
  let ?n = "length (items h)"
  have f: "frame ?n h (fixN h i ?n)" using il by (intro fixN_frame frame_refl) auto
  show "wf_pq (fixN h i ?n)" using f w by (rule frame_wf)
  show "idx_ok (fixN h i ?n)" if "idx_ok h" using f w that by (rule frame_idx)
  show "compare (fixN h i ?n) = compare h" using f by (simp add: frame_def)
  show "isMaxHeap (fixN h i ?n) = isMaxHeap h" using f by (simp add: frame_def)
  show "Value (mem (fixN h i ?n) ! a) = Value (mem h ! a)" using f by (simp add: frame_def)
  show "length (mem (fixN h i ?n)) = length (mem h)" using f by (simp add: frame_def)
  show l: "length (items (fixN h i ?n)) = ?n" using f by (simp add: frame_def)
  have t: "take ?n (items (fixN h i ?n)) = items (fixN h i ?n)" using l by simp
  have "mset (take ?n (items (fixN h i ?n))) = mset (take ?n (items h))"
    using f unfolding frame_def by blast
  then show "mset (items (fixN h i ?n)) = mset (items h)" unfolding t by simp
  show "mset (vals (fixN h i ?n)) = mset (vals h)" using f by (rule frame_vals_mset)
qed

lemma Update_heap:
  assumes w: "wf_pq h" and il: "i < length (items h)" and o: "ord_ok (lessV h)" and hk: "heap_ok h"
  shows "fix_pre (lessV (set_Value (items h ! i) v h)) (vals (set_Value (items h ! i) v h)) i (length (items h))"
    and "heap_ok (fixN (set_Value (items h ! i) v h) i (length (items h)))"
proof -
  let ?hs = "set_Value (items h ! i) v h"
  let ?n = "length (items h)"
  note sp = set_Value_props[OF w il refl, where v = v]
  have lv: "lessV ?hs = lessV h" by (intro ext) (simp add: lessV_def sp(3,4))
  have hn: "heap_upto (lessV h) (vals h) ?n" using hk by (simp add: heap_ok_def)
  have fp: "fix_pre (lessV h) (vals ?hs) i ?n"
  proof (rule heap_fix_pre[OF o hn])
    fix k assume "k < ?n" "k \<noteq> i"
    then show "vals ?hs ! k = vals h ! k" by (simp add: sp(7))
  qed
  then show fp': "fix_pre (lessV ?hs) (vals ?hs) i ?n" unfolding lv .
  have o': "ord_ok (lessV ?hs)" unfolding lv by (rule o)
  have n': "?n \<le> length (items ?hs)" by (simp add: sp(2))
  have "heap_upto (lessV ?hs) (vals (fixN ?hs i ?n)) ?n"
    using o' il n' fp' by (rule fixN_heap)
  moreover have "lessV (fixN ?hs i ?n) = lessV h"
    using fixN_ok(3,4)[OF sp(1), of i] il sp(2,3,4) by (intro ext) (simp add: lessV_def)
  moreover have "length (items (fixN ?hs i ?n)) = ?n"
    using fixN_ok(7)[OF sp(1), of i] il sp(2) by simp
  ultimately show "heap_ok (fixN ?hs i ?n)" unfolding lv by (simp add: heap_ok_def)
qed

lemma NewMinQueue_eq:
  "NewMinQueue cmp = Inr \<lparr>items = [], compare = cmp, isMaxHeap = False, mem = []\<rparr>"
  by (simp add: NewMinQueue_def Init_def Len_def Init_loop.simps)

lemma NewMaxQueue_eq:
  "NewMaxQueue cmp = Inr \<lparr>items = [], compare = cmp, isMaxHeap = True, mem = []\<rparr>"
  by (simp add: NewMaxQueue_def Init_def Len_def Init_loop.simps)

lemma Clear_eq: "Clear pq = Inr (pq\<lparr>items := []\<rparr>)"
  by (simp add: Clear_def Init_def Len_def Init_loop.simps)

lemma Pop_empty:
  "items pq = [] \<Longrightarrow> Pop zero pq = Inr ((zero, Some ''priority queue is empty''), pq)"
  by (simp add: Pop_def IsEmpty_def Len_def)

lemma Peek_empty:
  "items pq = [] \<Longrightarrow> Peek zero pq = Inr ((zero, Some ''priority queue is empty''), pq)"
  by (simp add: Peek_def IsEmpty_def Len_def)

lemma Peek_nonempty:
  assumes w: "wf_pq pq" and ne: "items pq \<noteq> []"
  shows "Peek zero pq = Inr ((vals pq ! 0, None), pq)"
proof -
  have 0: "0 < length (items pq)" using ne by simp
  then have "items pq ! 0 \<in> set (items pq)" by simp
  then have "items pq ! 0 < length (mem pq)" using w by (simp add: wf_pq_def)
  then show ?thesis
    using ne 0 item_at_nat[OF 0] by (simp add: Peek_def IsEmpty_def Len_def deref_def vals_def)
qed

lemma Pop_nonempty:
  assumes w: "wf_pq h" and ix: "idx_ok h" and ne: "items h \<noteq> []"
  shows "\<exists>h'. Pop zero h = Inr ((vals h ! 0, None), h') \<and> wf_pq h' \<and> idx_ok h' \<and>
           compare h' = compare h \<and> isMaxHeap h' = isMaxHeap h \<and>
           (\<forall>a. Value (mem h' ! a) = Value (mem h ! a)) \<and>
           mset (vals h') + {#vals h ! 0#} = mset (vals h) \<and>
           mset (items h') + {#items h ! 0#} = mset (items h) \<and>
           Suc (length (items h')) = length (items h) \<and>
           Index (mem h' ! (items h ! 0)) = - 1 \<and>
           (ord_ok (lessV h) \<longrightarrow> heap_ok h \<longrightarrow> heap_ok h')"
proof -
  from Pop_h_ok[OF w ix ne] obtain h' where
    p: "Pop_h h = Inr (items h ! 0, h')" and w': "wf_pq h'" and i': "idx_ok h'"
    and c: "compare h' = compare h" "isMaxHeap h' = isMaxHeap h"
    and v: "\<forall>a. Value (mem h' ! a) = Value (mem h ! a)"
    and m: "mset (vals h') + {#vals h ! 0#} = mset (vals h)"
       "mset (items h') + {#items h ! 0#} = mset (items h)"
    and l: "Suc (length (items h')) = length (items h)"
    and x: "Index (mem h' ! (items h ! 0)) = - 1"
    and lm: "length (mem h') = length (mem h)"
    and hk: "ord_ok (lessV h) \<longrightarrow> heap_ok h \<longrightarrow> heap_ok h'"
    by blast
  have 0: "0 < length (items h)" using ne by simp
  then have "items h ! 0 \<in> set (items h)" by simp
  then have al: "items h ! 0 < length (mem h')" using w lm by (simp add: wf_pq_def)
  have "Value (mem h' ! (items h ! 0)) = vals h ! 0" using v 0 by (simp add: vals_def)
  then have r: "Pop zero h = Inr ((vals h ! 0, None), h')"
    using ne p al by (simp add: Pop_def IsEmpty_def Len_def deref_def)
  show ?thesis
    by (intro exI[of _ h'] conjI; (rule r w' i' c v m l x hk))
qed

lemma Remove_ok:
  assumes w: "wf_pq h" and ix: "idx_ok h" and il: "i < length (items h)"
  shows "\<exists>h'. Remove (items h ! i) h = Inr h' \<and> wf_pq h' \<and> idx_ok h' \<and>
           compare h' = compare h \<and> isMaxHeap h' = isMaxHeap h \<and>
           (\<forall>a. Value (mem h' ! a) = Value (mem h ! a)) \<and>
           mset (vals h') + {#vals h ! i#} = mset (vals h) \<and>
           mset (items h') + {#items h ! i#} = mset (items h) \<and>
           Suc (length (items h')) = length (items h) \<and>
           Index (mem h' ! (items h ! i)) = - 1 \<and>
           (ord_ok (lessV h) \<longrightarrow> heap_ok h \<longrightarrow> heap_ok h') \<and>
           (Suc i = length (items h) \<longrightarrow> h' = snd (popN h))"
proof -
  from Remove_h_ok[OF w ix il] obtain h' where
    p: "Remove_h h (int i) = Inr (items h ! i, h')" and w': "wf_pq h'" and i': "idx_ok h'"
    and c: "compare h' = compare h" "isMaxHeap h' = isMaxHeap h"
    and v: "\<forall>a. Value (mem h' ! a) = Value (mem h ! a)"
    and m: "mset (vals h') + {#vals h ! i#} = mset (vals h)"
       "mset (items h') + {#items h ! i#} = mset (items h)"
    and l: "Suc (length (items h')) = length (items h)"
    and x: "Index (mem h' ! (items h ! i)) = - 1"
    and lm: "length (mem h') = length (mem h)"
    and hk: "ord_ok (lessV h) \<longrightarrow> heap_ok h \<longrightarrow> heap_ok h'"
    and lc: "Suc i = length (items h) \<longrightarrow> h' = snd (popN h)"
    by blast
  have "items h ! i \<in> set (items h)" using il by simp
  then have "items h ! i < length (mem h)" using w by (simp add: wf_pq_def)
  moreover have "Index (mem h ! (items h ! i)) = int i" using ix il by (simp add: idx_ok_def)
  ultimately have r: "Remove (items h ! i) h = Inr h'"
    using p by (simp add: Remove_def deref_def)
  show ?thesis
    by (intro exI[of _ h'] conjI; (rule r w' i' c v m l x hk lc))
qed

lemma pq_reach_inv:
  assumes "pq_reach cmp mx pq"
  shows "wf_pq pq \<and> idx_ok pq \<and> compare pq = cmp \<and> isMaxHeap pq = mx \<and>
         (comparator_ok cmp \<longrightarrow> heap_ok pq)"
  using assms
proof (induction rule: pq_reach.induct)
  case (pr_min pq)
  then have "pq = \<lparr>items = [], compare = cmp, isMaxHeap = False, mem = []\<rparr>"
    by (simp add: NewMinQueue_eq)
  then show ?case by (simp add: wf_pq_def idx_ok_def heap_ok_def heap_upto_def)
next
  case (pr_max pq)
  then have "pq = \<lparr>items = [], compare = cmp, isMaxHeap = True, mem = []\<rparr>"
    by (simp add: NewMaxQueue_eq)
  then show ?case by (simp add: wf_pq_def idx_ok_def heap_ok_def heap_upto_def)
next
  case (pr_push mx pq v pq')
  then have w: "wf_pq pq" and ix: "idx_ok pq" and c: "compare pq = cmp" "isMaxHeap pq = mx"
    and hk: "comparator_ok cmp \<Longrightarrow> heap_ok pq" by simp_all
  from Push_ok[OF w ix, of v] pr_push.hyps(2) have
    1: "wf_pq pq'" "idx_ok pq'" "compare pq' = compare pq" "isMaxHeap pq' = isMaxHeap pq"
    and 2: "ord_ok (lessV pq) \<longrightarrow> heap_ok pq \<longrightarrow> heap_ok pq'" by auto
  have "heap_ok pq'" if "comparator_ok cmp"
    using 2 hk[OF that] comparator_ord_ok[of pq] that c by simp
  then show ?case using 1 c by simp
next
  case (pr_pop mx pq zero r pq')
  then have w: "wf_pq pq" and ix: "idx_ok pq" and c: "compare pq = cmp" "isMaxHeap pq = mx"
    and hk: "comparator_ok cmp \<Longrightarrow> heap_ok pq" by simp_all
  show ?case
  proof (cases "items pq = []")
    case True
    then have "pq' = pq" using pr_pop.hyps(2) by (simp add: Pop_empty)
    then show ?thesis using pr_pop.IH by simp
  next
    case False
    from Pop_nonempty[OF w ix False, of zero] pr_pop.hyps(2) have
      1: "wf_pq pq'" "idx_ok pq'" "compare pq' = compare pq" "isMaxHeap pq' = isMaxHeap pq"
      and 2: "ord_ok (lessV pq) \<longrightarrow> heap_ok pq \<longrightarrow> heap_ok pq'" by auto
    have "heap_ok pq'" if "comparator_ok cmp"
      using 2 hk[OF that] comparator_ord_ok[of pq] that c by simp
    then show ?thesis using 1 c by simp
  qed
next
  case (pr_peek mx pq zero r pq')
  then have w: "wf_pq pq" by simp
  have "pq' = pq"
  proof (cases "items pq = []")
    case True
    then show ?thesis using pr_peek.hyps(2) by (simp add: Peek_empty)
  next
    case False
    then show ?thesis using pr_peek.hyps(2) Peek_nonempty[OF w False, of zero] by simp
  qed
  then show ?case using pr_peek.IH by simp
next
  case (pr_clear mx pq pq')
  then have "pq' = pq\<lparr>items := []\<rparr>" by (simp add: Clear_eq)
  then show ?case using pr_clear.IH by (simp add: wf_pq_def idx_ok_def heap_ok_def heap_upto_def)
next
  case (pr_remove mx pq item pq')
  then have w: "wf_pq pq" and ix: "idx_ok pq" and c: "compare pq = cmp" "isMaxHeap pq = mx"
    and hk: "comparator_ok cmp \<Longrightarrow> heap_ok pq" by simp_all
  from pr_remove.hyps(2) obtain i where i: "i < length (items pq)" "item = items pq ! i"
    by (auto simp: ToSlice_def in_set_conv_nth)
  from Remove_ok[OF w ix i(1)] pr_remove.hyps(3) i(2) have
    1: "wf_pq pq'" "idx_ok pq'" "compare pq' = compare pq" "isMaxHeap pq' = isMaxHeap pq"
    and 2: "ord_ok (lessV pq) \<longrightarrow> heap_ok pq \<longrightarrow> heap_ok pq'" by auto
  have "heap_ok pq'" if "comparator_ok cmp"
    using 2 hk[OF that] comparator_ord_ok[of pq] that c by simp
  then show ?case using 1 c by simp
next
  case (pr_update mx pq item v pq')
  then have w: "wf_pq pq" and ix: "idx_ok pq" and c: "compare pq = cmp" "isMaxHeap pq = mx"
    and hk: "comparator_ok cmp \<Longrightarrow> heap_ok pq" by simp_all
  from pr_update.hyps(2) obtain i where i: "i < length (items pq)" "item = items pq ! i"
    by (auto simp: ToSlice_def in_set_conv_nth)
  let ?hs = "set_Value item v pq"
  note sp = set_Value_props[OF w i, where v = v]
  have il: "i < length (items ?hs)" using i(1) sp(2) by simp
  have "UpdateItem (items ?hs ! i) ?hs = Inr (fixN ?hs i (length (items ?hs)))"
    using sp(1) sp(6)[OF ix] il by (rule UpdateItem_nat)
  then have e: "pq' = fixN ?hs i (length (items ?hs))"
    using pr_update.hyps(3) i(2) sp(2) by simp
  note fo = fixN_ok[OF sp(1) il]
  have 1: "wf_pq pq'" "idx_ok pq'" "compare pq' = cmp" "isMaxHeap pq' = mx"
    using fo(1) fo(2)[OF sp(6)[OF ix]] fo(3,4) sp(3,4) c unfolding e by simp_all
  have "heap_ok pq'" if "comparator_ok cmp"
  proof -
    have "ord_ok (lessV pq)" using comparator_ord_ok[of pq] that c by simp
    from Update_heap(2)[OF w i(1) this hk[OF that], of v] show ?thesis
      unfolding e using i(2) sp(2) by simp
  qed
  then show ?case using 1 by simp
qed

section \<open>Evaluation on concrete states\<close>

lemma IntCompare_ok: "comparator_ok IntCompare"
  unfolding comparator_ok_def IntCompare_def by (auto simp: word_sle_eq word_sless_alt)

lemma up_unf:
  "up h j =
     (if (j - 1) sdiv 2 = j then Inr h
      else (case Less h j ((j - 1) sdiv 2) of Inl e \<Rightarrow> Inl e | Inr b \<Rightarrow>
              if \<not> b then Inr h
              else (case Swap h ((j - 1) sdiv 2) j of Inl e \<Rightarrow> Inl e
                    | Inr h' \<Rightarrow> up h' ((j - 1) sdiv 2))))"
  by (subst up.simps) (unfold Let_def, rule refl)

lemma down_loop_unf:
  "down_loop h i n =
     (if 2 * i + 1 \<ge> n \<or> 2 * i + 1 < 0 then Inr (h, i)
      else (case (if 2 * i + 1 + 1 < n then Less h (2 * i + 1 + 1) (2 * i + 1) else Inr False) of
              Inl e \<Rightarrow> Inl e
            | Inr b \<Rightarrow>
                (case Less h (if b then 2 * i + 1 + 1 else 2 * i + 1) i of Inl e \<Rightarrow> Inl e
                 | Inr c \<Rightarrow>
                     if \<not> c then Inr (h, i)
                     else (case Swap h i (if b then 2 * i + 1 + 1 else 2 * i + 1) of
                             Inl e \<Rightarrow> Inl e
                           | Inr h' \<Rightarrow> down_loop h' (if b then 2 * i + 1 + 1 else 2 * i + 1) n))))"
  by (subst down_loop.simps) (unfold Let_def, rule refl)

lemmas pq_eval = Push_def NewItem_def Push_h_def heap_Push_def set_Index_def Len_def
  up_unf down_loop_unf down_def Less_def Swap_def item_at_def deref_def signed_divide_int_def
  IntCompare_def Pop_def Pop_h_def heap_Pop_def IsEmpty_def Let_def word_sless_alt
  Remove_def Remove_h_def UpdateItem_def Fix_def set_Value_def
  UpdateItem_spec_def Fix_spec_def up_swaps_def

lemma ex_new: "NewMinQueue IntCompare = Inr ex_q0"
  by (simp add: NewMinQueue_eq ex_q0_def)

lemma ex_push1: "Push 30 ex_q0 = Inr ex_q1"
  by (simp add: ex_q0_def ex_q1_def pq_eval)

lemma ex_push2: "Push 10 ex_q1 = Inr ex_q2"
  by (simp add: ex_q1_def ex_q2_def pq_eval)

lemma ex_push3: "Push 20 ex_q2 = Inr ex_q3"
  by (simp add: ex_q2_def ex_q3_def pq_eval)

lemma ex_pop3: "Pop 0 ex_q3 = Inr ((10, None), ex_q4)"
  by (simp add: ex_q3_def ex_q4_def pq_eval)


lemma ex_reach0: "pq_reach IntCompare False ex_q0"
  by (rule pr_min[OF ex_new])

lemma ex_reach3: "pq_reach IntCompare False ex_q3"
  by (rule pr_push[OF pr_push[OF pr_push[OF ex_reach0 ex_push1] ex_push2] ex_push3])

lemma ex_remove0: "Remove 0 ex_q3 = Inr ex_r0"
  by (simp add: ex_q3_def ex_r0_def pq_eval)


lemma ex_update0: "UpdateItem 0 (set_Value 0 5 ex_q3) = Inr ex_u0"
  by (simp add: ex_q3_def ex_u0_def pq_eval)


lemma ex_update0_spec: "UpdateItem_spec 0 (set_Value 0 5 ex_q3) = Inr ex_u0"
  by (simp add: ex_q3_def ex_u0_def pq_eval)

lemma ex_p4_pushes: "pq_push_all [0, 1, 9, 5] ex_q0 = Inr ex_p4"
  by (simp add: ex_q0_def ex_p4_def pq_eval)

lemma ex_run_min: "pq_run (NewMinQueue (ReverseCompare IntCompare)) [10, 30, 20] 3 0
    = Inr [(30, None), (20, None), (10, None)]"
  by (simp add: pq_run_def NewMinQueue_eq ReverseCompare_def pq_eval numeral_3_eq_3)

lemma ex_run_max: "pq_run (NewMaxQueue IntCompare) [10, 30, 20] 3 0
    = Inr [(30, None), (20, None), (10, None)]"
  by (simp add: pq_run_def NewMaxQueue_eq pq_eval numeral_3_eq_3)

lemma IntCompare_range: "\<forall>x y. IntCompare x y = - 1 \<or> IntCompare x y = 0 \<or> IntCompare x y = 1"
  by (simp add: IntCompare_def)

section \<open>Priority queue: successive pops\<close>

lemma Pop_None_nonempty: "Pop zero pq = Inr ((a, None), pq1) \<Longrightarrow> items pq \<noteq> []"
  by (auto simp: Pop_empty)


lemma distinct_removed:
  assumes "distinct xs" and "mset ys + {#a#} = mset xs"
  shows "a \<notin> set ys"
proof -
  have "mset xs = mset (a # ys)" using assms(2) by simp
  then have "distinct (a # ys)" using assms(1) mset_eq_imp_distinct_iff by blast
  then show ?thesis by simp
qed

lemma pos_of_item:
  assumes "item \<in> set (ToSlice pq)"
  obtains i where "i < length (items pq)" "item = items pq ! i"
  using assms by (auto simp: ToSlice_def in_set_conv_nth)

lemma fixN_spec_eq:
  assumes o: "ord_ok (lessV h)" and pre: "fix_pre (lessV h) (vals h) i n"
  shows "fixN h i n =
           (if 0 < i \<and> lessV h (vals h ! i) (vals h ! ((i - 1) div 2)) then upN h i
            else fst (downN h i n))"
proof -
  let ?lt = "lessV h" and ?xs = "vals h" and ?p = "(i - 1) div 2"
  have asym: "\<And>x y. ?lt x y \<Longrightarrow> \<not> ?lt y x"
    and tr: "\<And>x y z. \<not> ?lt y x \<Longrightarrow> \<not> ?lt z y \<Longrightarrow> \<not> ?lt z x"
    using o unfolding ord_ok_def by blast+
  have g: "\<And>k. 0 < k \<Longrightarrow> k < n \<Longrightarrow> (k - 1) div 2 = i \<Longrightarrow> 0 < i \<Longrightarrow> \<not> ?lt (?xs ! k) (?xs ! ?p)"
    using pre unfolding fix_pre_def by blast
  show ?thesis
  proof (cases "0 < i \<and> ?lt (?xs ! i) (?xs ! ?p)")
    case True
    have ch: "\<not> ?lt (?xs ! k) (?xs ! i)" if "0 < k" "k < n" "(k - 1) div 2 = i" for k
    proof -
      have np: "\<not> ?lt (?xs ! ?p) (?xs ! i)" using asym True by auto
      have nk: "\<not> ?lt (?xs ! k) (?xs ! ?p)" using g[of k] that True by auto
      from tr[OF np nk] show ?thesis .
    qed
    then have st: "snd (downN h i n) = i" using downN_stay_iff[OF o, of i n] by blast
    then have same: "fst (downN h i n) = h" by (rule downN_stay_same)
    have "fixN h i n = upN h i" using st same by (simp add: fixN_def)
    then show ?thesis by (simp only: if_P[OF True])
  next
    case False
    show ?thesis
    proof (cases "snd (downN h i n) > i")
      case True
      show ?thesis by (simp only: fixN_def if_P[OF True] if_not_P[OF False])
    next
      case nm: False
      then have st: "snd (downN h i n) = i" using downN_ge[of i h n] by simp
      then have same: "fst (downN h i n) = h" by (rule downN_stay_same)
      have "upN h i = h" using False by (subst upN.simps) (simp only: if_False)
      then have "fixN h i n = fst (downN h i n)" using st same by (simp add: fixN_def)
      then show ?thesis by (simp only: if_not_P[OF False])
    qed
  qed
qed

lemma Fix_spec_nat:
  assumes w: "wf_pq h" and i: "i < length (items h)"
  shows "Fix_spec h (int i) =
           Inr (if 0 < i \<and> lessV h (vals h ! i) (vals h ! ((i - 1) div 2)) then upN h i
                else fst (downN h i (length (items h))))"
proof -
  let ?p = "(i - 1) div 2"
  define b where "b \<longleftrightarrow> 0 < i \<and> lessV h (vals h ! i) (vals h ! ?p)"
  have pl: "?p < length (items h)" using i by arith
  have u: "up h (int i) = Inr (upN h i)" using w i by (rule up_refine)
  have sw: "up_swaps h (int i) = Inr b"
  proof (cases "0 < i")
    case True
    then have "?p < i" by arith
    then have "int ?p \<noteq> int i" by simp
    then show ?thesis
      using True Less_nat[OF w i pl] by (simp add: up_swaps_def sdiv_parent Let_def b_def)
  next
    case False
    then show ?thesis by (simp add: up_swaps_def signed_divide_int_def b_def)
  qed
  have "Fix_spec h (int i) = Inr (if b then upN h i else fst (downN h i (length (items h))))"
  proof (cases b)
    case True
    then show ?thesis using sw u by (simp add: Fix_spec_def)
  next
    case False
    then have "\<not> (0 < i \<and> lessV h (vals h ! i) (vals h ! ?p))" by (simp add: b_def)
    then have "upN h i = h" by (subst upN.simps) (simp only: if_False)
    then have u': "up h (int i) = Inr h" using u by simp
    have d: "down h (int i) (int (length (items h)))
             = Inr (fst (downN h i (length (items h))), i < snd (downN h i (length (items h))))"
      using w by (intro down_nat) auto
    show ?thesis using False sw u' d by (simp add: Fix_spec_def Len_def)
  qed
  then show ?thesis unfolding b_def .
qed

section \<open>Priority queue: two heaps with the same order\<close>

lemma so_vals: "same_order h h' \<Longrightarrow> vals h = vals h'"
  by (simp add: same_order_def vals_def)

lemma so_swp:
  assumes s: "same_order h h'"
  shows "same_order (swp h i j) (swp h' i j)"
proof -
  have "items (swp h i j) = items (swp h' i j)" using s by (simp add: same_order_def)
  moreover have "mem (swp h i j) = mem (swp h' i j)"
    using s by (simp add: same_order_def swp_def Let_def)
  moreover have "lessV (swp h i j) = lessV (swp h' i j)" using s by (simp add: same_order_def)
  ultimately show ?thesis by (simp only: same_order_def simp_thms)
qed

lemma so_wf: "same_order h h' \<Longrightarrow> wf_pq h \<Longrightarrow> wf_pq h'"
  by (simp add: same_order_def wf_pq_def)

lemma so_idx: "same_order h h' \<Longrightarrow> idx_ok h \<Longrightarrow> idx_ok h'"
  by (simp add: same_order_def idx_ok_def)

lemma so_upN: "same_order h h' \<Longrightarrow> same_order (upN h j) (upN h' j)"
proof (induction h j arbitrary: h' rule: upN.induct)
  case (1 h j)
  let ?p = "(j - 1) div 2"
  have v: "vals h' = vals h" and l: "lessV h' = lessV h"
    using "1.prems" by (simp_all add: same_order_def vals_def)
  show ?case
  proof (cases "0 < j \<and> lessV h (vals h ! j) (vals h ! ?p)")
    case False
    then have "upN h j = h" by (subst upN.simps) (simp only: if_False)
    moreover from False have "upN h' j = h'" by (subst upN.simps) (simp only: v l if_False)
    ultimately show ?thesis using "1.prems" by simp
  next
    case True
    have "upN h j = upN (swp h ?p j) ?p" by (subst upN.simps) (simp only: True simp_thms if_True)
    moreover have "upN h' j = upN (swp h' ?p j) ?p"
      by (subst upN.simps) (simp only: v l True simp_thms if_True)
    moreover have "same_order (upN (swp h ?p j) ?p) (upN (swp h' ?p j) ?p)"
      using "1.IH"[OF True] so_swp[OF "1.prems"] by simp
    ultimately show ?thesis by simp
  qed
qed

lemma so_downN:
  "same_order h h' \<Longrightarrow>
   same_order (fst (downN h i n)) (fst (downN h' i n)) \<and> snd (downN h i n) = snd (downN h' i n)"
proof (induction h i n arbitrary: h' rule: downN.induct)
  case (1 h i n)
  define j where "j = (if 2 * i + 2 < n \<and> lessV h (vals h ! (2 * i + 2)) (vals h ! (2 * i + 1))
                     then 2 * i + 2 else 2 * i + 1)"
  have v: "vals h' = vals h" and l: "lessV h' = lessV h"
    using "1.prems" by (simp_all add: same_order_def vals_def)
  show ?case
  proof (cases "2 * i + 1 < n \<and> lessV h (vals h ! j) (vals h ! i)")
    case False
    then have "downN h i n = (h, i)" by (subst downN_unfold) (auto simp: j_def Let_def)
    moreover from False have "downN h' i n = (h', i)"
      by (subst downN_unfold) (auto simp: j_def Let_def v l)
    ultimately show ?thesis using "1.prems" by simp
  next
    case True
    have u: "downN h i n = downN (swp h i j) j n"
      using True by (subst downN_unfold) (auto simp: j_def Let_def)
    have u': "downN h' i n = downN (swp h' i j) j n"
      using True by (subst downN_unfold) (auto simp: j_def Let_def v l)
    have "\<not> n \<le> 2 * i + 1" using True by simp
    moreover have "j = (if 2 * i + 1 + 1 < n \<and> lessV h (vals h ! (2 * i + 1 + 1)) (vals h ! (2 * i + 1))
                        then 2 * i + 1 + 1 else 2 * i + 1)" by (simp add: j_def)
    ultimately have "same_order (fst (downN (swp h i j) j n)) (fst (downN (swp h' i j) j n)) \<and>
        snd (downN (swp h i j) j n) = snd (downN (swp h' i j) j n)"
      using "1.IH"[of "2 * i + 1" j "swp h' i j"] True so_swp[OF "1.prems"] by simp
    then show ?thesis unfolding u u' .
  qed
qed

lemma so_pushN: "same_order h h' \<Longrightarrow> same_order (pushN v h) (pushN v h')"
  unfolding same_order_def
  by (auto simp: pushN_def lessV_def fun_eq_iff)

lemma so_popN:
  "same_order h h' \<Longrightarrow> same_order (snd (popN h)) (snd (popN h')) \<and> fst (popN h) = fst (popN h')"
  unfolding same_order_def
  by (auto simp: popN_def Let_def lessV_def fun_eq_iff)

lemma Pop_h_nat:
  assumes w: "wf_pq h" and ne: "items h \<noteq> []"
  shows "Pop_h h = Inr (popN (fst (downN (swp h 0 (length (items h) - 1)) 0 (length (items h) - 1))))"
proof -
  let ?len = "length (items h)"
  define n where "n = ?len - 1"
  define h1 where "h1 = swp h 0 n"
  define h2 where "h2 = fst (downN h1 0 n)"
  have nl: "n < ?len" "0 < ?len" using ne by (simp_all add: n_def)
  have ni: "Len h - 1 = int n" using ne by (simp add: Len_def n_def of_nat_diff Suc_leI)
  have w1: "wf_pq h1" unfolding h1_def using w nl by (intro swp_wf) auto
  have l1: "length (items h1) = ?len" by (simp add: h1_def)
  have f12: "frame n h1 h2" unfolding h2_def using nl l1 by (intro downN_frame frame_refl) auto
  have w2: "wf_pq h2" using f12 w1 by (rule frame_wf)
  have l2: "length (items h2) = ?len" using frame_len[OF f12] l1 by simp
  have ne2: "items h2 \<noteq> []" using l2 nl by auto
  have sw: "Swap h 0 (int n) = Inr h1"
    using Swap_nat[OF w nl(2) nl(1)] by (simp add: h1_def)
  have dn: "down h1 0 (int n) = Inr (h2, 0 < snd (downN h1 0 n))"
    using down_nat[OF w1, of n 0] nl l1 by (simp add: h2_def)
  have hp: "heap_Pop h2 = Inr (popN h2)" using w2 ne2 by (rule heap_Pop_nat)
  have "Pop_h h = Inr (popN h2)"
    using sw dn hp by (simp add: Pop_h_def ni Let_def)
  then show ?thesis unfolding h2_def h1_def n_def .
qed

lemma Pop_nat:
  assumes w: "wf_pq h" and ix: "idx_ok h" and ne: "items h \<noteq> []"
  shows "Pop zero h =
     Inr ((vals h ! 0, None),
          snd (popN (fst (downN (swp h 0 (length (items h) - 1)) 0 (length (items h) - 1)))))"
proof -
  from Pop_nonempty[OF w ix ne, of zero] obtain h' where
    p: "Pop zero h = Inr ((vals h ! 0, None), h')" by blast
  have "h' = snd (popN (fst (downN (swp h 0 (length (items h) - 1)) 0 (length (items h) - 1))))"
    using p ne Pop_h_nat[OF w ne]
    by (auto simp: Pop_def IsEmpty_def Len_def split: sum.splits prod.splits)
  with p show ?thesis by simp
qed

lemma so_Push:
  assumes s: "same_order h h'" and w: "wf_pq h" and ix: "idx_ok h"
  shows "\<exists>h1 h1'. Push v h = Inr h1 \<and> Push v h' = Inr h1' \<and> same_order h1 h1' \<and>
           wf_pq h1 \<and> idx_ok h1"
proof -
  have w': "wf_pq h'" using s w by (rule so_wf)
  have l: "length (items h') = length (items h)" using s by (simp add: same_order_def)
  have 1: "Push v h = Inr (upN (pushN v h) (length (items h)))" using w by (rule Push_nat(1))
  have 2: "Push v h' = Inr (upN (pushN v h') (length (items h)))"
    using Push_nat(1)[OF w', of v] l by simp
  have 3: "same_order (upN (pushN v h) (length (items h))) (upN (pushN v h') (length (items h)))"
    using s by (intro so_upN so_pushN)
  from Push_ok[OF w ix, of v] 1 have 4: "wf_pq (upN (pushN v h) (length (items h)))"
    and 5: "idx_ok (upN (pushN v h) (length (items h)))" by auto
  show ?thesis using 1 2 3 4 5 by blast
qed

lemma so_Pop:
  assumes s: "same_order h h'" and w: "wf_pq h" and ix: "idx_ok h"
  shows "\<exists>r h1 h1'. Pop zero h = Inr (r, h1) \<and> Pop zero h' = Inr (r, h1') \<and> same_order h1 h1' \<and>
           wf_pq h1 \<and> idx_ok h1"
proof (cases "items h = []")
  case True
  then have "items h' = []" using s by (simp add: same_order_def)
  then show ?thesis using True s w ix by (auto simp: Pop_empty)
next
  case False
  have w': "wf_pq h'" using s w by (rule so_wf)
  have ix': "idx_ok h'" using s ix by (rule so_idx)
  have e: "items h' = items h" using s by (simp add: same_order_def)
  let ?n = "length (items h) - 1"
  have 1: "Pop zero h = Inr ((vals h ! 0, None), snd (popN (fst (downN (swp h 0 ?n) 0 ?n))))"
    using w ix False by (rule Pop_nat)
  have 2: "Pop zero h' = Inr ((vals h ! 0, None), snd (popN (fst (downN (swp h' 0 ?n) 0 ?n))))"
    using Pop_nat[OF w' ix', of zero] False e so_vals[OF s] by simp
  have "same_order (fst (downN (swp h 0 ?n) 0 ?n)) (fst (downN (swp h' 0 ?n) 0 ?n))"
    using so_downN[OF so_swp[OF s]] by blast
  then have 3: "same_order (snd (popN (fst (downN (swp h 0 ?n) 0 ?n))))
                           (snd (popN (fst (downN (swp h' 0 ?n) 0 ?n))))"
    using so_popN by blast
  from Pop_nonempty[OF w ix False, of zero] 1
  have 4: "wf_pq (snd (popN (fst (downN (swp h 0 ?n) 0 ?n))))"
    and 5: "idx_ok (snd (popN (fst (downN (swp h 0 ?n) 0 ?n))))" by auto
  show ?thesis using 1 2 3 4 5 by blast
qed

lemma so_push_all:
  "same_order h h' \<Longrightarrow> wf_pq h \<Longrightarrow> idx_ok h \<Longrightarrow>
   \<exists>h1 h1'. pq_push_all vs h = Inr h1 \<and> pq_push_all vs h' = Inr h1' \<and> same_order h1 h1' \<and>
      wf_pq h1 \<and> idx_ok h1"
proof (induction vs arbitrary: h h')
  case Nil
  then show ?case by simp
next
  case (Cons v vs)
  from so_Push[OF Cons.prems, of v] obtain h1 h1' where
    p: "Push v h = Inr h1" "Push v h' = Inr h1'" and s: "same_order h1 h1'"
    and w: "wf_pq h1" and ix: "idx_ok h1" by blast
  from Cons.IH[OF s w ix] p show ?case by simp
qed

lemma so_pop_n:
  "same_order h h' \<Longrightarrow> wf_pq h \<Longrightarrow> idx_ok h \<Longrightarrow>
   \<exists>rs h1 h1'. pq_pop_n n zero h = Inr (rs, h1) \<and> pq_pop_n n zero h' = Inr (rs, h1')"
proof (induction n arbitrary: h h')
  case 0
  then show ?case by simp
next
  case (Suc n)
  from so_Pop[OF Suc.prems, of zero] obtain r h1 h1' where
    p: "Pop zero h = Inr (r, h1)" "Pop zero h' = Inr (r, h1')" and s: "same_order h1 h1'"
    and w: "wf_pq h1" and ix: "idx_ok h1" by blast
  from Suc.IH[OF s w ix] obtain rs h2 h2' where
    "pq_pop_n n zero h1 = Inr (rs, h2)" "pq_pop_n n zero h1' = Inr (rs, h2')" by blast
  with p show ?case by simp
qed

lemma reverse_same_order:
  assumes "\<forall>x y. cmp x y = - 1 \<or> cmp x y = 0 \<or> cmp x y = 1"
  shows "same_order \<lparr>items = [], compare = ReverseCompare cmp, isMaxHeap = False, mem = []\<rparr>
                    \<lparr>items = [], compare = cmp, isMaxHeap = True, mem = []\<rparr>"
proof -
  have "(- cmp x y <s 0) = (0 <s cmp x y)" for x y
    using assms[rule_format, of x y] by (auto simp: word_sless_alt)
  then show ?thesis by (simp add: same_order_def lessV_def ReverseCompare_def fun_eq_iff)
qed

section \<open>The claims about the priority queue\<close>



text \<open>
  C9 (position-index consistency). In every state reached through the exported
  operations (so after each of them) the item stored at position \<open>i\<close> records
  \<open>Index = i\<close>. A successful \<^verbatim>\<open>Pop\<close> returns the value of the item at the root, leaves
  that item out of the queue and sets its \<^verbatim>\<open>Index\<close> to \<open>-1\<close>; \<^verbatim>\<open>Remove\<close> of an item of
  the queue does the same to that item.
\<close>

theorem C9_index_consistency:
  assumes "pq_reach cmp mx pq"
  shows "(\<forall>i < length (items pq). Index (mem pq ! (items pq ! i)) = int i) \<and>
         (Pop zero pq = Inr ((v, None), pq1) \<longrightarrow>
            v = Value (mem pq ! (items pq ! 0)) \<and>
            Index (mem pq1 ! (items pq ! 0)) = - 1 \<and> items pq ! 0 \<notin> set (items pq1)) \<and>
         (item \<in> set (ToSlice pq) \<longrightarrow> Remove item pq = Inr pq2 \<longrightarrow>
            Index (mem pq2 ! item) = - 1 \<and> item \<notin> set (items pq2))"
proof (intro conjI impI)
  from pq_reach_inv[OF assms] have w: "wf_pq pq" and ix: "idx_ok pq" by simp_all
  have d: "distinct (items pq)" using w by (simp add: wf_pq_def)
  show "\<forall>i < length (items pq). Index (mem pq ! (items pq ! i)) = int i"
    using ix by (simp add: idx_ok_def)
  {
    assume p: "Pop zero pq = Inr ((v, None), pq1)"
    then have ne: "items pq \<noteq> []" by (rule Pop_None_nonempty)
    from Pop_nonempty[OF w ix ne, of zero] p have
      1: "v = vals pq ! 0" and 2: "Index (mem pq1 ! (items pq ! 0)) = - 1"
      and 3: "mset (items pq1) + {#items pq ! 0#} = mset (items pq)" by auto
    show "v = Value (mem pq ! (items pq ! 0))" using 1 ne by (simp add: vals_def)
    show "Index (mem pq1 ! (items pq ! 0)) = - 1" by (rule 2)
    show "items pq ! 0 \<notin> set (items pq1)" using d 3 by (rule distinct_removed)
  }
  {
    assume it: "item \<in> set (ToSlice pq)" and r: "Remove item pq = Inr pq2"
    from it obtain i where i: "i < length (items pq)" "item = items pq ! i" by (rule pos_of_item)
    from Remove_ok[OF w ix i(1)] r i(2) have
      2: "Index (mem pq2 ! item) = - 1"
      and 3: "mset (items pq2) + {#item#} = mset (items pq)" by auto
    show "Index (mem pq2 ! item) = - 1" by (rule 2)
    show "item \<notin> set (items pq2)" using d 3 by (rule distinct_removed)
  }
qed

theorem C9_index_consistency_witness:
  "pq_reach IntCompare False ex_q3 \<and> Pop 0 ex_q3 = Inr ((10, None), ex_q4) \<and>
   0 \<in> set (ToSlice ex_q3) \<and> Remove 0 ex_q3 = Inr ex_r0 \<and>
   length (items ex_q3) = 3 \<and>
   Index (mem ex_q3 ! (items ex_q3 ! 0)) = 0 \<and> Index (mem ex_q3 ! (items ex_q3 ! 1)) = 1 \<and>
   Index (mem ex_q3 ! (items ex_q3 ! 2)) = 2 \<and>
   10 = Value (mem ex_q3 ! (items ex_q3 ! 0)) \<and>
   Index (mem ex_q4 ! (items ex_q3 ! 0)) = - 1 \<and> items ex_q3 ! 0 \<notin> set (items ex_q4) \<and>
   Index (mem ex_r0 ! 0) = - 1 \<and> 0 \<notin> set (items ex_r0)"
proof -
  have l: "length (items ex_q3) = 3" by (simp add: ex_q3_def)
  have m: "0 \<in> set (ToSlice ex_q3)" by (simp add: ToSlice_def ex_q3_def)
  from C9_index_consistency[OF ex_reach3, of 0 10 ex_q4 0 ex_r0] ex_pop3 m ex_remove0
  have E: "(\<forall>i < length (items ex_q3). Index (mem ex_q3 ! (items ex_q3 ! i)) = int i) \<and>
   10 = Value (mem ex_q3 ! (items ex_q3 ! 0)) \<and>
   Index (mem ex_q4 ! (items ex_q3 ! 0)) = - 1 \<and> items ex_q3 ! 0 \<notin> set (items ex_q4) \<and>
   Index (mem ex_r0 ! 0) = - 1 \<and> 0 \<notin> set (items ex_r0)"
    by simp
  then have ix: "\<And>i. i < 3 \<Longrightarrow> Index (mem ex_q3 ! (items ex_q3 ! i)) = int i"
    unfolding l by blast
  have i0: "Index (mem ex_q3 ! (items ex_q3 ! 0)) = 0" using ix[of 0] by simp
  have i1: "Index (mem ex_q3 ! (items ex_q3 ! 1)) = 1" using ix[of 1] by simp
  have i2: "Index (mem ex_q3 ! (items ex_q3 ! 2)) = 2" using ix[of 2] by simp
  show ?thesis
    by (intro conjI) (rule ex_reach3, rule ex_pop3, rule m, rule ex_remove0, rule l,
        rule i0, rule i1, rule i2, (rule E[THEN conjunct2, THEN conjunct1]),
        (rule E[THEN conjunct2, THEN conjunct2, THEN conjunct1]),
        (rule E[THEN conjunct2, THEN conjunct2, THEN conjunct2, THEN conjunct1]),
        (rule E[THEN conjunct2, THEN conjunct2, THEN conjunct2, THEN conjunct2, THEN conjunct1]),
        (rule E[THEN conjunct2, THEN conjunct2, THEN conjunct2, THEN conjunct2, THEN conjunct2]))
qed





text \<open>
  C6 as stated (\<^verbatim>\<open>UpdateItem\<close> equals, on every input, the reference fix-up that sifts up
  first) fails: \<^verbatim>\<open>UpdateItem\<close> is \<^verbatim>\<open>heap.Fix\<close>, which sifts down first and sifts up only
  if the item did not move down. The two differ where the item both beats its parent
  and is beaten by a child: after the pushes 0, 1, 9, 5 and the client's writes of 5 to
  the root item and of 0 to the last item, \<^verbatim>\<open>UpdateItem\<close> on the item holding 1 swaps it
  with its child, the reference fix-up swaps it with its parent.
\<close>

theorem C6_counterexample:
  "pq_push_all [0, 1, 9, 5] ex_q0 = Inr ex_p4 \<and>
   set_Value 3 0 (set_Value 0 5 ex_p4) = ex_c6 \<and>
   UpdateItem 1 ex_c6 = Inr ex_c6_code \<and>
   UpdateItem_spec 1 ex_c6 = Inr ex_c6_spec \<and>
   UpdateItem 1 ex_c6 \<noteq> UpdateItem_spec 1 ex_c6"
proof -
  have 1: "set_Value 3 0 (set_Value 0 5 ex_p4) = ex_c6"
    by (simp add: ex_p4_def ex_c6_def set_Value_def)
  have 2: "UpdateItem 1 ex_c6 = Inr ex_c6_code"
    by (simp add: ex_c6_def ex_c6_code_def pq_eval)
  have 3: "UpdateItem_spec 1 ex_c6 = Inr ex_c6_spec"
    by (simp add: ex_c6_def ex_c6_spec_def pq_eval)
  have 4: "UpdateItem 1 ex_c6 \<noteq> UpdateItem_spec 1 ex_c6"
    unfolding 2 3 by (simp add: ex_c6_code_def ex_c6_spec_def)
  show ?thesis using ex_p4_pushes 1 2 3 4 by (intro conjI)
qed

text \<open>
  C6, amended. \<^verbatim>\<open>UpdateItem\<close> attempts a sift-down and, only if the item did not move
  down, a sift-up. When the comparator keeps the contract and the client has
  overwritten the value of one item of a queue in a reachable state, \<^verbatim>\<open>UpdateItem\<close> on
  that item and the reference fix-up of the specification (sift-up, then sift-down only
  if no upward swap occurred) return the same state, and the heap property holds in it.
\<close>

theorem C6_update_fix:
  assumes ck: "comparator_ok cmp" and r: "pq_reach cmp mx pq" and it: "item \<in> set (ToSlice pq)"
  shows "\<exists>pq'. UpdateItem item (set_Value item v pq) = Inr pq' \<and>
           UpdateItem_spec item (set_Value item v pq) = Inr pq' \<and> heap_ok pq'"
proof -
  from pq_reach_inv[OF r] ck have w: "wf_pq pq" and ix: "idx_ok pq"
    and c: "compare pq = cmp" and hk: "heap_ok pq" by simp_all
  have o: "ord_ok (lessV pq)" using comparator_ord_ok[of pq] ck c by simp
  from it obtain i where i: "i < length (items pq)" "item = items pq ! i" by (rule pos_of_item)
  let ?hs = "set_Value item v pq"
  let ?n = "length (items pq)"
  note sp = set_Value_props[OF w i, where v = v]
  have il: "i < length (items ?hs)" using i(1) sp(2) by simp
  have lv: "lessV ?hs = lessV pq" by (intro ext) (simp add: lessV_def sp(3,4))
  have "UpdateItem (items ?hs ! i) ?hs = Inr (fixN ?hs i (length (items ?hs)))"
    using sp(1) sp(6)[OF ix] il by (rule UpdateItem_nat)
  then have u: "UpdateItem item ?hs = Inr (fixN ?hs i ?n)" using i(2) sp(2) by simp
  have al: "item < length (mem ?hs)" using w i sp(5) by (simp add: wf_pq_def)
  have xi: "Index (mem ?hs ! item) = int i" using sp(8)[of item] ix i by (simp add: idx_ok_def)
  have "UpdateItem_spec item ?hs = Fix_spec ?hs (int i)"
    using al xi by (simp add: UpdateItem_spec_def deref_def)
  also have "\<dots> = Inr (if 0 < i \<and> lessV ?hs (vals ?hs ! i) (vals ?hs ! ((i - 1) div 2))
                        then upN ?hs i else fst (downN ?hs i (length (items ?hs))))"
    using sp(1) il by (rule Fix_spec_nat)
  also have "\<dots> = Inr (fixN ?hs i ?n)"
  proof -
    have o': "ord_ok (lessV ?hs)" unfolding lv by (rule o)
    have fp: "fix_pre (lessV ?hs) (vals ?hs) i ?n"
      using Update_heap(1)[OF w i(1) o hk, of v] i(2) by simp
    show ?thesis using fixN_spec_eq[OF o' fp] sp(2) by simp
  qed
  finally have s: "UpdateItem_spec item ?hs = Inr (fixN ?hs i ?n)" .
  have h: "heap_ok (fixN ?hs i ?n)"
    using Update_heap(2)[OF w i(1) o hk, of v] i(2) by simp
  show ?thesis using u s h by (intro exI[of _ "fixN ?hs i ?n"] conjI)
qed

theorem C6_update_fix_witness:
  "comparator_ok IntCompare \<and> pq_reach IntCompare False ex_q3 \<and> 0 \<in> set (ToSlice ex_q3) \<and>
   UpdateItem 0 (set_Value 0 5 ex_q3) = Inr ex_u0 \<and>
   UpdateItem_spec 0 (set_Value 0 5 ex_q3) = Inr ex_u0 \<and>
   (\<exists>pq'. UpdateItem 0 (set_Value 0 5 ex_q3) = Inr pq' \<and>
           UpdateItem_spec 0 (set_Value 0 5 ex_q3) = Inr pq' \<and> heap_ok pq')"
proof -
  have m: "0 \<in> set (ToSlice ex_q3)" by (simp add: ToSlice_def ex_q3_def)
  note E = C6_update_fix[OF IntCompare_ok ex_reach3 m, of 5]
  show ?thesis
    by (intro conjI) (rule IntCompare_ok, rule ex_reach3, rule m, rule ex_update0,
        rule ex_update0_spec, rule E)
qed

text \<open>
  C8 (reversed comparator). \<^verbatim>\<open>ReverseCompare(cmp)\<close> returns the negation of what \<open>cmp\<close>
  returns. For a comparator whose results are \<open>-1\<close>, \<open>0\<close> and \<open>1\<close> only, and for every
  sequence of pushes followed by any number of pops, the min-queue built on
  \<^verbatim>\<open>ReverseCompare(cmp)\<close> and the max-queue built on \<open>cmp\<close> both run without a panic and
  return the same sequence of results.
\<close>

theorem C8_reverse_compare:
  "ReverseCompare cmp a b = - cmp a b \<and>
   ((\<forall>x y. cmp x y = - 1 \<or> cmp x y = 0 \<or> cmp x y = 1) \<longrightarrow>
    (\<exists>rs. pq_run (NewMinQueue (ReverseCompare cmp)) vs n zero = Inr rs \<and>
          pq_run (NewMaxQueue cmp) vs n zero = Inr rs))"
proof (intro conjI impI)
  show "ReverseCompare cmp a b = - cmp a b" by (simp add: ReverseCompare_def)
  assume c: "\<forall>x y. cmp x y = - 1 \<or> cmp x y = 0 \<or> cmp x y = 1"
  let ?h = "\<lparr>items = [], compare = ReverseCompare cmp, isMaxHeap = False, mem = []\<rparr>"
  let ?h' = "\<lparr>items = [], compare = cmp, isMaxHeap = True, mem = []\<rparr>"
  have s: "same_order ?h ?h'" using c by (rule reverse_same_order)
  have w: "wf_pq ?h" and ix: "idx_ok ?h" by (simp_all add: wf_pq_def idx_ok_def)
  from so_push_all[OF s w ix, of vs] obtain h1 h1' where
    p: "pq_push_all vs ?h = Inr h1" "pq_push_all vs ?h' = Inr h1'" and s1: "same_order h1 h1'"
    and w1: "wf_pq h1" and ix1: "idx_ok h1" by blast
  from so_pop_n[OF s1 w1 ix1, of n zero] obtain rs h2 h2' where
    q: "pq_pop_n n zero h1 = Inr (rs, h2)" "pq_pop_n n zero h1' = Inr (rs, h2')" by blast
  have "pq_run (NewMinQueue (ReverseCompare cmp)) vs n zero = Inr rs"
    using p q by (simp add: pq_run_def NewMinQueue_eq)
  moreover have "pq_run (NewMaxQueue cmp) vs n zero = Inr rs"
    using p q by (simp add: pq_run_def NewMaxQueue_eq)
  ultimately show "\<exists>rs. pq_run (NewMinQueue (ReverseCompare cmp)) vs n zero = Inr rs \<and>
          pq_run (NewMaxQueue cmp) vs n zero = Inr rs" by blast
qed

theorem C8_reverse_compare_witness:
  "(\<forall>x y. IntCompare x y = - 1 \<or> IntCompare x y = 0 \<or> IntCompare x y = 1) \<and>
   ReverseCompare IntCompare 10 30 = - IntCompare 10 30 \<and>
   pq_run (NewMinQueue (ReverseCompare IntCompare)) [10, 30, 20] 3 0
     = Inr [(30, None), (20, None), (10, None)] \<and>
   pq_run (NewMaxQueue IntCompare) [10, 30, 20] 3 0 = Inr [(30, None), (20, None), (10, None)] \<and>
   (\<exists>rs. pq_run (NewMinQueue (ReverseCompare IntCompare)) [10, 30, 20] 3 0 = Inr rs \<and>
         pq_run (NewMaxQueue IntCompare) [10, 30, 20] 3 0 = Inr rs)"
proof -
  note T = C8_reverse_compare[of IntCompare 10 30 "[10, 30, 20]" 3 0]
  have 1: "ReverseCompare IntCompare 10 30 = - IntCompare 10 30" by (rule T[THEN conjunct1])
  have 2: "\<exists>rs. pq_run (NewMinQueue (ReverseCompare IntCompare)) [10, 30, 20] 3 0 = Inr rs \<and>
         pq_run (NewMaxQueue IntCompare) [10, 30, 20] 3 0 = Inr rs"
    by (rule T[THEN conjunct2, rule_format, OF IntCompare_range[rule_format]])
  show ?thesis
    by (intro conjI) (rule IntCompare_range, rule 1, rule ex_run_min, rule ex_run_max, rule 2)
qed

section \<open>The claims about all three structures\<close>

lemma stack_empty_iff: "stack_reach s \<Longrightarrow> (stack_Size s = 0) = (top s = None)"
  using stack_reach_inv[of s] chain_len_0[of "top s"] by (simp add: stack_Size_def)

lemma stack_size_pos: "stack_reach s \<Longrightarrow> (0 < stack_Size s) = (top s \<noteq> None)"
  using stack_reach_inv[of s] chain_len_0[of "top s"] by (cases "top s") (auto simp: stack_Size_def)

lemma stack_outcomes:
  "fails (Inr (stack_Pop zero s)) = (top s = None)"
  "fails (Inr (stack_Peek zero s)) = (top s = None)"
  "succeeds (Inr (stack_Pop zero s)) = (top s \<noteq> None)"
  "succeeds (Inr (stack_Peek zero s)) = (top s \<noteq> None)"
  by (cases "top s"; simp add: fails_def succeeds_def stack_Pop_def stack_Peek_def)+

lemma queue_abs_Front:
  "queue_abs q (v # vs) \<Longrightarrow> queue_Front zero q = Inr ((v, None), q)"
  by (auto simp: queue_abs_def queue_repr_def queue_contents_def queue_Front_def
      queue_IsEmpty_def qderef_def)

lemma queue_abs_Rear:
  assumes "queue_abs q vs" "vs \<noteq> []"
  shows "queue_Rear zero q = Inr ((last vs, None), q)"
proof -
  from assms obtain as where r: "queue_repr q as" and c: "queue_contents q as = vs"
    by (auto simp: queue_abs_def)
  have ne: "as \<noteq> []" using c assms(2) by (auto simp: queue_contents_def)
  then have f: "front q \<noteq> None" using r by (cases as) (auto simp: queue_repr_def)
  have rr: "rear q = Some (last as)" using r ne by (simp add: queue_repr_def)
  have "last as \<in> set as" using ne by simp
  then have lb: "last as < length (qmem q)" using r qchain_bound by (auto simp: queue_repr_def)
  have "last vs = qValue (qmem q ! last as)" using c ne by (auto simp: queue_contents_def last_map)
  then show ?thesis using f rr lb by (simp add: queue_Rear_def queue_IsEmpty_def qderef_def)
qed

lemma queue_outcomes:
  assumes r: "queue_reach q"
  shows "queue_Size q = 0 \<Longrightarrow> fails (queue_Pop zero q) \<and> fails (queue_Front zero q) \<and> fails (queue_Rear zero q)"
    and "0 < queue_Size q \<Longrightarrow> succeeds (queue_Pop zero q) \<and> succeeds (queue_Front zero q) \<and> succeeds (queue_Rear zero q)"
proof -
  from queue_reach_abs[OF r] obtain vs where a: "queue_abs q vs" by blast
  have sz: "queue_Size q = int (length vs)" using queue_abs_size[OF a] by (simp add: queue_Size_def)
  show "fails (queue_Pop zero q) \<and> fails (queue_Front zero q) \<and> fails (queue_Rear zero q)"
    if "queue_Size q = 0"
  proof -
    from that sz have "vs = []" by simp
    then have "queue_IsEmpty q" using queue_abs_empty[OF a] by simp
    then show ?thesis
      by (simp add: fails_def queue_Pop_def queue_Front_def queue_Rear_def)
  qed
  show "succeeds (queue_Pop zero q) \<and> succeeds (queue_Front zero q) \<and> succeeds (queue_Rear zero q)"
    if "0 < queue_Size q"
  proof -
    from that sz obtain v vs' where v: "vs = v # vs'" by (cases vs) auto
    from queue_abs_Pop[of q v vs' zero] a v obtain q' where
      "queue_Pop zero q = Inr ((v, None), q')" by auto
    moreover have "queue_Front zero q = Inr ((v, None), q)" using a v queue_abs_Front by fastforce
    moreover have "queue_Rear zero q = Inr ((last vs, None), q)" using a v queue_abs_Rear[of q vs] by simp
    ultimately show ?thesis by (simp add: succeeds_def)
  qed
qed

lemma pq_outcomes:
  assumes r: "pq_reach cmp mx pq"
  shows "Size pq = 0 \<Longrightarrow> fails (Pop zero pq) \<and> fails (Peek zero pq)"
    and "0 < Size pq \<Longrightarrow> succeeds (Pop zero pq) \<and> succeeds (Peek zero pq)"
proof -
  from pq_reach_inv[OF r] have w: "wf_pq pq" and ix: "idx_ok pq" by simp_all
  show "fails (Pop zero pq) \<and> fails (Peek zero pq)" if "Size pq = 0"
  proof -
    from that have "items pq = []" by (simp add: Size_def Len_def)
    then show ?thesis by (simp add: Pop_empty Peek_empty fails_def)
  qed
  show "succeeds (Pop zero pq) \<and> succeeds (Peek zero pq)" if "0 < Size pq"
  proof -
    from that have ne: "items pq \<noteq> []" by (auto simp: Size_def Len_def)
    from Pop_nonempty[OF w ix ne, of zero] obtain h' where
      "Pop zero pq = Inr ((vals pq ! 0, None), h')" by blast
    then show ?thesis using Peek_nonempty[OF w ne, of zero] by (simp add: succeeds_def)
  qed
qed

lemma ex_stack1_eq: "stack_Push 7 NewStack = ex_stack1"
  by (simp add: stack_Push_def NewStack_def ex_stack1_def)

lemma ex_queue1_eq: "queue_Push 7 NewQueue = Inr ex_queue1"
  by (simp add: queue_Push_def NewQueue_def ex_queue1_def queue_IsEmpty_def Let_def)

lemma ex_stack1_reach: "stack_reach ex_stack1"
  using sr_push[OF sr_new, of "7::int"] by (simp add: ex_stack1_eq)

lemma ex_queue1_reach: "queue_reach ex_queue1"
  by (rule qr_push[OF qr_new ex_queue1_eq])

text \<open>
  C4 (empty-error). In every state reached through the exported operations, on a stack,
  a queue or a priority queue whose \<^verbatim>\<open>Size()\<close> is zero every extraction or peek-style
  operation returns an error, and on one whose \<^verbatim>\<open>Size()\<close> is positive each of them
  returns with a \<^verbatim>\<open>nil\<close> error (and does not panic).
\<close>

theorem C4_empty_error:
  assumes "stack_reach s" and "queue_reach q" and "pq_reach cmp mx pq"
  shows "(stack_Size s = 0 \<longrightarrow>
            fails (Inr (stack_Pop zs s)) \<and> fails (Inr (stack_Peek zs s))) \<and>
         (0 < stack_Size s \<longrightarrow>
            succeeds (Inr (stack_Pop zs s)) \<and> succeeds (Inr (stack_Peek zs s))) \<and>
         (queue_Size q = 0 \<longrightarrow>
            fails (queue_Pop zq q) \<and> fails (queue_Front zq q) \<and> fails (queue_Rear zq q)) \<and>
         (0 < queue_Size q \<longrightarrow>
            succeeds (queue_Pop zq q) \<and> succeeds (queue_Front zq q) \<and> succeeds (queue_Rear zq q)) \<and>
         (Size pq = 0 \<longrightarrow> fails (Pop zp pq) \<and> fails (Peek zp pq)) \<and>
         (0 < Size pq \<longrightarrow> succeeds (Pop zp pq) \<and> succeeds (Peek zp pq))"
proof (intro conjI impI)
  assume "stack_Size s = 0"
  then have t: "top s = None" using stack_empty_iff[OF assms(1)] by simp
  show "fails (Inr (stack_Pop zs s))" "fails (Inr (stack_Peek zs s))"
    using t by (simp_all add: stack_outcomes)
next
  assume "0 < stack_Size s"
  then have t: "top s \<noteq> None" using stack_size_pos[OF assms(1)] by simp
  show "succeeds (Inr (stack_Pop zs s))" "succeeds (Inr (stack_Peek zs s))"
    using t by (simp_all add: stack_outcomes)
next
  assume a: "queue_Size q = 0"
  show "fails (queue_Pop zq q)" "fails (queue_Front zq q)" "fails (queue_Rear zq q)"
    using queue_outcomes(1)[OF assms(2) a] by simp_all
next
  assume a: "0 < queue_Size q"
  show "succeeds (queue_Pop zq q)" "succeeds (queue_Front zq q)" "succeeds (queue_Rear zq q)"
    using queue_outcomes(2)[OF assms(2) a] by simp_all
next
  assume a: "Size pq = 0"
  show "fails (Pop zp pq)" "fails (Peek zp pq)" using pq_outcomes(1)[OF assms(3) a] by simp_all
next
  assume a: "0 < Size pq"
  show "succeeds (Pop zp pq)" "succeeds (Peek zp pq)" using pq_outcomes(2)[OF assms(3) a] by simp_all
qed

theorem C4_empty_error_witness:
  "stack_reach (NewStack :: int Stack) \<and> queue_reach (NewQueue :: int Queue) \<and>
   pq_reach IntCompare False ex_q0 \<and>
   stack_Size (NewStack :: int Stack) = 0 \<and> queue_Size (NewQueue :: int Queue) = 0 \<and> Size ex_q0 = 0 \<and>
   fails (Inr (stack_Pop 0 (NewStack :: int Stack))) \<and> fails (Inr (stack_Peek 0 (NewStack :: int Stack))) \<and>
   fails (queue_Pop 0 (NewQueue :: int Queue)) \<and> fails (queue_Front 0 (NewQueue :: int Queue)) \<and>
   fails (queue_Rear 0 (NewQueue :: int Queue)) \<and>
   fails (Pop 0 ex_q0) \<and> fails (Peek 0 ex_q0) \<and>
   stack_reach ex_stack1 \<and> queue_reach ex_queue1 \<and> pq_reach IntCompare False ex_q3 \<and>
   0 < stack_Size ex_stack1 \<and> 0 < queue_Size ex_queue1 \<and> 0 < Size ex_q3 \<and>
   succeeds (Inr (stack_Pop 0 ex_stack1)) \<and> succeeds (Inr (stack_Peek 0 ex_stack1)) \<and>
   succeeds (queue_Pop 0 ex_queue1) \<and> succeeds (queue_Front 0 ex_queue1) \<and>
   succeeds (queue_Rear 0 ex_queue1) \<and>
   succeeds (Pop 0 ex_q3) \<and> succeeds (Peek 0 ex_q3)"
proof -
  have e: "stack_Size (NewStack :: int Stack) = 0" "queue_Size (NewQueue :: int Queue) = 0"
    "Size ex_q0 = 0"
    by (simp_all add: stack_Size_def NewStack_def queue_Size_def NewQueue_def Size_def Len_def ex_q0_def)
  have n: "0 < stack_Size ex_stack1" "0 < queue_Size ex_queue1" "0 < Size ex_q3"
    by (simp_all add: stack_Size_def ex_stack1_def queue_Size_def ex_queue1_def Size_def Len_def ex_q3_def)
  note a = C4_empty_error[OF sr_new qr_new ex_reach0, where zs = "0::int" and zq = "0::int" and zp = "0::int"]
  note b = C4_empty_error[OF ex_stack1_reach ex_queue1_reach ex_reach3, where zs = "0::int" and zq = "0::int" and zp = "0::int"]
  from a e have A: "fails (Inr (stack_Pop 0 (NewStack :: int Stack))) \<and>
      fails (Inr (stack_Peek 0 (NewStack :: int Stack))) \<and>
      fails (queue_Pop 0 (NewQueue :: int Queue)) \<and> fails (queue_Front 0 (NewQueue :: int Queue)) \<and>
      fails (queue_Rear 0 (NewQueue :: int Queue)) \<and> fails (Pop 0 ex_q0) \<and> fails (Peek 0 ex_q0)"
    by simp
  from b n have B: "succeeds (Inr (stack_Pop 0 ex_stack1)) \<and> succeeds (Inr (stack_Peek 0 ex_stack1)) \<and>
      succeeds (queue_Pop 0 ex_queue1) \<and> succeeds (queue_Front 0 ex_queue1) \<and>
      succeeds (queue_Rear 0 ex_queue1) \<and> succeeds (Pop 0 ex_q3) \<and> succeeds (Peek 0 ex_q3)"
    by simp
  have R: "stack_reach (NewStack :: int Stack)" "queue_reach (NewQueue :: int Queue)"
    "pq_reach IntCompare False ex_q0" "stack_reach ex_stack1" "queue_reach ex_queue1"
    "pq_reach IntCompare False ex_q3"
    by (rule sr_new qr_new ex_reach0 ex_stack1_reach ex_queue1_reach ex_reach3)+
  show ?thesis
    by (intro conjI; (rule R e n | (rule A[THEN conjunct1]) | (insert A B, simp)))
qed

text \<open>
  C10 (failed calls). Whenever one of the extraction or peek-style operations returns an
  error, the value it returns is the zero value of the element type and the structure is
  the one before the call.
\<close>

theorem C10_failed_call:
  "(stack_Pop zs s = ((v1, Some e1), s1) \<longrightarrow> v1 = zs \<and> s1 = s) \<and>
   (stack_Peek zs s = ((v2, Some e2), s2) \<longrightarrow> v2 = zs \<and> s2 = s) \<and>
   (queue_Pop zq q = Inr ((v3, Some e3), q3) \<longrightarrow> v3 = zq \<and> q3 = q) \<and>
   (queue_Front zq q = Inr ((v4, Some e4), q4) \<longrightarrow> v4 = zq \<and> q4 = q) \<and>
   (queue_Rear zq q = Inr ((v5, Some e5), q5) \<longrightarrow> v5 = zq \<and> q5 = q) \<and>
   (Pop zp pq = Inr ((v6, Some e6), pq6) \<longrightarrow> v6 = zp \<and> pq6 = pq) \<and>
   (Peek zp pq = Inr ((v7, Some e7), pq7) \<longrightarrow> v7 = zp \<and> pq7 = pq)"
proof (intro conjI impI)
  assume "stack_Pop zs s = ((v1, Some e1), s1)"
  then show "v1 = zs" "s1 = s" by (auto simp: stack_Pop_def split: option.splits)
next
  assume "stack_Peek zs s = ((v2, Some e2), s2)"
  then show "v2 = zs" "s2 = s" by (auto simp: stack_Peek_def split: option.splits)
next
  assume "queue_Pop zq q = Inr ((v3, Some e3), q3)"
  then show "v3 = zq" "q3 = q"
    by (auto simp: queue_Pop_def Let_def split: if_splits sum.splits)
next
  assume "queue_Front zq q = Inr ((v4, Some e4), q4)"
  then show "v4 = zq" "q4 = q"
    by (auto simp: queue_Front_def split: if_splits sum.splits)
next
  assume "queue_Rear zq q = Inr ((v5, Some e5), q5)"
  then show "v5 = zq" "q5 = q"
    by (auto simp: queue_Rear_def split: if_splits sum.splits)
next
  assume "Pop zp pq = Inr ((v6, Some e6), pq6)"
  then show "v6 = zp" "pq6 = pq"
    by (auto simp: Pop_def split: if_splits sum.splits prod.splits)
next
  assume "Peek zp pq = Inr ((v7, Some e7), pq7)"
  then show "v7 = zp" "pq7 = pq"
    by (auto simp: Peek_def split: if_splits sum.splits)
qed

theorem C10_failed_call_witness:
  "stack_Pop 0 (NewStack :: int Stack) = ((0, Some ''stack is empty''), NewStack) \<and>
   stack_Peek 0 (NewStack :: int Stack) = ((0, Some ''stack is empty''), NewStack) \<and>
   queue_Pop 0 (NewQueue :: int Queue) = Inr ((0, Some ''queue is empty''), NewQueue) \<and>
   queue_Front 0 (NewQueue :: int Queue) = Inr ((0, Some ''queue is empty''), NewQueue) \<and>
   queue_Rear 0 (NewQueue :: int Queue) = Inr ((0, Some ''queue is empty''), NewQueue) \<and>
   Pop 0 ex_q0 = Inr ((0, Some ''priority queue is empty''), ex_q0) \<and>
   Peek 0 ex_q0 = Inr ((0, Some ''priority queue is empty''), ex_q0) \<and>
   (0::int) = 0 \<and> (NewStack :: int Stack) = NewStack \<and> (NewQueue :: int Queue) = NewQueue \<and> ex_q0 = ex_q0"
proof -
  have h: "stack_Pop 0 (NewStack :: int Stack) = ((0, Some ''stack is empty''), NewStack)"
    "stack_Peek 0 (NewStack :: int Stack) = ((0, Some ''stack is empty''), NewStack)"
    "queue_Pop 0 (NewQueue :: int Queue) = Inr ((0, Some ''queue is empty''), NewQueue)"
    "queue_Front 0 (NewQueue :: int Queue) = Inr ((0, Some ''queue is empty''), NewQueue)"
    "queue_Rear 0 (NewQueue :: int Queue) = Inr ((0, Some ''queue is empty''), NewQueue)"
    "Pop 0 ex_q0 = Inr ((0, Some ''priority queue is empty''), ex_q0)"
    "Peek 0 ex_q0 = Inr ((0, Some ''priority queue is empty''), ex_q0)"
    by (simp_all add: stack_Pop_def stack_Peek_def NewStack_def queue_Pop_def queue_Front_def
        queue_Rear_def queue_IsEmpty_def NewQueue_def Pop_empty Peek_empty ex_q0_def)
  from C10_failed_call[of 0 "NewStack :: int Stack" 0 "''stack is empty''" NewStack
      0 "''stack is empty''" NewStack
      0 "NewQueue :: int Queue" 0 "''queue is empty''" NewQueue
      0 "''queue is empty''" NewQueue 0 "''queue is empty''" NewQueue
      0 ex_q0 0 "''priority queue is empty''" ex_q0 0 "''priority queue is empty''" ex_q0] h
  show ?thesis by simp
qed


end
